theory Spec2Isabelle
  imports Main "HOL-Library.Multiset"
begin

section \<open>Data model\<close>

text \<open>
  The enums of \<^verbatim>\<open>types/role.ts\<close> and \<^verbatim>\<open>types/phase.ts\<close>. Both are string enums:
  at run time a variant is the string of the same spelling, which \<open>ROLE_string\<close> and
  \<open>PHASE_string\<close> give.
\<close>

datatype ROLE = WereWolf | FortuneTeller | Medium | Hunter | Maniac | Villager

datatype PHASE = Start | Discussion | Voting | VotingResult | Night

fun ROLE_string :: "ROLE \<Rightarrow> string" where
  "ROLE_string WereWolf = ''WereWolf''"
| "ROLE_string FortuneTeller = ''FortuneTeller''"
| "ROLE_string Medium = ''Medium''"
| "ROLE_string Hunter = ''Hunter''"
| "ROLE_string Maniac = ''Maniac''"
| "ROLE_string Villager = ''Villager''"

fun PHASE_string :: "PHASE \<Rightarrow> string" where
  "PHASE_string Start = ''Start''"
| "PHASE_string Discussion = ''Discussion''"
| "PHASE_string Voting = ''Voting''"
| "PHASE_string VotingResult = ''VotingResult''"
| "PHASE_string Night = ''Night''"

text \<open>A thrown \<^verbatim>\<open>new Error(message)\<close> is the value \<open>Error message\<close>.\<close>

datatype error = Error string

text \<open>\<^verbatim>\<open>getRoleByString\<close> (types/role.ts): a switch over the six encodings, throwing by default.\<close>

definition getRoleByString :: "string \<Rightarrow> error + ROLE" where
  "getRoleByString v =
     (if v = ROLE_string WereWolf then Inr WereWolf
      else if v = ROLE_string FortuneTeller then Inr FortuneTeller
      else if v = ROLE_string Medium then Inr Medium
      else if v = ROLE_string Hunter then Inr Hunter
      else if v = ROLE_string Maniac then Inr Maniac
      else if v = ROLE_string Villager then Inr Villager
      else Inl (Error (''unexpected value: '' @ v)))"

text \<open>\<^verbatim>\<open>getPhaseByString\<close> (types/phase.ts): the same over the five phases.\<close>

definition getPhaseByString :: "string \<Rightarrow> error + PHASE" where
  "getPhaseByString v =
     (if v = PHASE_string Start then Inr Start
      else if v = PHASE_string Discussion then Inr Discussion
      else if v = PHASE_string Voting then Inr Voting
      else if v = PHASE_string VotingResult then Inr VotingResult
      else if v = PHASE_string Night then Inr Night
      else Inl (Error (''unexpected value: '' @ v)))"

text \<open>
  \<^verbatim>\<open>Rule\<close> (types/rule.ts): how many members get each role. The fields are JavaScript
  numbers that \<^verbatim>\<open>mapRule\<close> reads back with \<^verbatim>\<open>parseInt\<close>, so they are integers and can be
  negative.
\<close>

record Rule =
  wereWolves :: int
  fortuneTellers :: int
  mediumns :: int
  hunters :: int
  maniacs :: int
  villagers :: int

text \<open>
  \<^verbatim>\<open>User\<close> (types/user.ts). \<open>role\<close> is \<open>None\<close> where the JavaScript value is
  \<^verbatim>\<open>undefined\<close>, which is what reading \<^verbatim>\<open>choices[i]\<close> past the end of the array gives.
\<close>

record User =
  user_id :: string
  user_name :: string
  isHost :: bool
  role :: "ROLE option"
  isAlive :: bool
  voteCount :: int
  isAwaiting :: bool

text \<open>\<^verbatim>\<open>Room\<close> (types/room.ts); \<^verbatim>\<open>string | null\<close> is \<open>string option\<close>.\<close>

record Room =
  room_id :: string
  room_name :: string
  rule :: Rule
  userIds :: "string list"
  inProgress :: bool
  days :: int
  phase :: PHASE
  isFinalVoting :: bool
  lastLynched :: "string option"
  lastMurdered :: "string option"
  lastHunted :: "string option"

section \<open>The stores\<close>

text \<open>
  \<^verbatim>\<open>RedisRoomStore\<close> and \<^verbatim>\<open>RedisUserStore\<close>, the stores index.ts runs on: records kept
  under their id, read by id, listed, and written whole. A store is the list of its
  records in the order they were first written; writing a record under an id that is
  present replaces it in place. The stores hand out copies, so a record read earlier
  changes in the store only when it is written back. A field that is written and read
  back unchanged (a boolean or a number through its string, a name, a phase) is kept as
  it is; \<open>None\<close> in \<open>lastLynched\<close>, \<open>lastMurdered\<close> and \<open>lastHunted\<close> stands for both
  \<^verbatim>\<open>null\<close> and the empty string that a stored \<^verbatim>\<open>null\<close> is read back as. Expiry of
  records is not modelled.
\<close>

record Store =
  rooms :: "Room list"
  users :: "User list"

definition put :: "('a \<Rightarrow> string) \<Rightarrow> 'a \<Rightarrow> 'a list \<Rightarrow> 'a list" where
  "put key x xs =
     (if key x \<in> key ` set xs then map (\<lambda>y. if key y = key x then x else y) xs
      else xs @ [x])"

text \<open>\<^verbatim>\<open>mapRoom\<close>: what reading a stored room gives. A record with an empty id is not returned.\<close>

definition mapRoom :: "Room \<Rightarrow> Room option" where
  "mapRoom r = (if room_id r \<noteq> [] then Some r else None)"

definition getRoom :: "Store \<Rightarrow> string \<Rightarrow> Room option" where
  "getRoom s i =
     (case find (\<lambda>r. room_id r = i) (rooms s) of Some r \<Rightarrow> mapRoom r | None \<Rightarrow> None)"

text \<open>
  \<^verbatim>\<open>setRoom\<close> deletes the stored member list and pushes \<^verbatim>\<open>room.userIds\<close> with one
  \<^verbatim>\<open>LPUSH\<close>: each id goes to the head, so the list is stored, and read back by
  \<^verbatim>\<open>getRoom\<close>, in reverse. With no id to push the command is refused when it is queued
  and the whole \<^verbatim>\<open>MULTI\<close> block is dropped: nothing is written.
\<close>

definition setRoom :: "Room \<Rightarrow> Store \<Rightarrow> Store" where
  "setRoom r s =
     (if userIds r = [] then s
      else s\<lparr>rooms := put room_id (r\<lparr>userIds := rev (userIds r)\<rparr>) (rooms s)\<rparr>)"

text \<open>
  \<^verbatim>\<open>mapUser\<close>: what reading a stored user gives. A record with an empty id is not
  returned; a role that was written as \<^verbatim>\<open>undefined\<close> is read back as WereWolf, any
  other role as it was written (it is decoded from its own string).
\<close>

definition mapUser :: "User \<Rightarrow> User option" where
  "mapUser u =
     (if user_id u \<noteq> [] then
        Some (u\<lparr>role := (case role u of Some r \<Rightarrow> Some r | None \<Rightarrow> Some WereWolf)\<rparr>)
      else None)"

definition getUser :: "Store \<Rightarrow> string \<Rightarrow> User option" where
  "getUser s i =
     (case find (\<lambda>u. user_id u = i) (users s) of Some u \<Rightarrow> mapUser u | None \<Rightarrow> None)"

definition getUsers :: "Store \<Rightarrow> User list" where
  "getUsers s = List.map_filter mapUser (users s)"

definition setUser :: "User \<Rightarrow> Store \<Rightarrow> Store" where
  "setUser u s = s\<lparr>users := put user_id u (users s)\<rparr>"

text \<open>Each id names one record. Every handler below keeps this (\<open>handle_wf\<close>).\<close>

definition wf_store :: "Store \<Rightarrow> bool" where
  "wf_store s \<longleftrightarrow> distinct (map room_id (rooms s)) \<and> distinct (map user_id (users s))"

section \<open>Helpers of index.ts\<close>

definition HUMAN_WIN :: string where "HUMAN_WIN = ''HumanWin''"
definition WOLVES_WIN :: string where "WOLVES_WIN = ''WolvesWin''"
definition CONTINUE_GAME :: string where "CONTINUE_GAME = ''ContinueGame''"

text \<open>\<^verbatim>\<open>getUsersInRoom\<close>: the stored users whose id is in the stored room's member list.\<close>

definition getUsersInRoom :: "Store \<Rightarrow> string \<Rightarrow> User list" where
  "getUsersInRoom s roomId =
     (case getRoom s roomId of
        Some room \<Rightarrow> filter (\<lambda>user. user_id user \<in> set (userIds room)) (getUsers s)
      | None \<Rightarrow> [])"

definition checkAwaitStatus :: "Store \<Rightarrow> Room \<Rightarrow> bool" where
  "checkAwaitStatus s room =
     (let users = getUsersInRoom s (room_id room);
          aliveUsers = filter isAlive users;
          awaitingUsers = filter isAwaiting aliveUsers
      in length aliveUsers = length awaitingUsers)"

text \<open>
  \<^verbatim>\<open>resetIsAwaiting\<close> and \<^verbatim>\<open>resetVoteCount\<close>: the member list is read once, then each
  member is changed and written back, in order.
\<close>

definition resetIsAwaiting :: "Store \<Rightarrow> Room \<Rightarrow> Store" where
  "resetIsAwaiting s room =
     fold (\<lambda>v. setUser (v\<lparr>isAwaiting := False\<rparr>)) (getUsersInRoom s (room_id room)) s"

definition resetVoteCount :: "Store \<Rightarrow> Room \<Rightarrow> Store" where
  "resetVoteCount s room =
     fold (\<lambda>v. setUser (v\<lparr>voteCount := 0\<rparr>)) (getUsersInRoom s (room_id room)) s"

text \<open>\<^verbatim>\<open>Math.max(...xs)\<close>; \<open>None\<close> is the \<^verbatim>\<open>-Infinity\<close> of the empty argument list.\<close>

fun Math_max :: "int list \<Rightarrow> int option" where
  "Math_max [] = None"
| "Math_max (x # xs) = (case Math_max xs of None \<Rightarrow> Some x | Some m \<Rightarrow> Some (max x m))"

definition getSuspects :: "Store \<Rightarrow> Room \<Rightarrow> string list" where
  "getSuspects s room =
     (let users = getUsersInRoom s (room_id room);
          mx = Math_max (map voteCount users);
          suspects = filter (\<lambda>v. Some (voteCount v) = mx) users
      in map user_id suspects)"

definition judge :: "Store \<Rightarrow> string \<Rightarrow> string" where
  "judge s roomId =
     (case getRoom s roomId of
        Some room \<Rightarrow>
          (let users = getUsersInRoom s roomId;
               aliveWolves = filter (\<lambda>v. isAlive v \<and> role v = Some WereWolf) users;
               aliveHumans = filter (\<lambda>v. isAlive v \<and> role v \<noteq> Some WereWolf) users
           in if length aliveWolves = 0 then HUMAN_WIN
              else if length aliveWolves \<ge> length aliveHumans then WOLVES_WIN
              else CONTINUE_GAME)
      | None \<Rightarrow> CONTINUE_GAME)"

section \<open>Event handlers of index.ts\<close>

text \<open>
  What a handler sends out, in order: \<open>Log\<close> is a \<^verbatim>\<open>console.log\<close> (the fixed part of its
  message), \<open>Emit e\<close> is \<^verbatim>\<open>socket.emit(e, ...)\<close> to the sender, \<open>Broadcast e\<close> is
  \<^verbatim>\<open>io.to(roomId).emit(e, ...)\<close> to the room. Payloads are not recorded. A handler runs
  from start to end on the store, alone: handlers that interleave are outside this model.
  Calls a handler does not await are taken where they are made (they write User records
  only). Which sockets have joined which channel belongs to the
  transport and is not part of the store.
\<close>

datatype outbound = Log string | Emit string | Broadcast string

text \<open>\<^verbatim>\<open>create\<close>: \<open>roomId\<close> and \<open>userId\<close> are the two ids drawn by \<^verbatim>\<open>getId\<close>.\<close>

definition create :: "string \<Rightarrow> string \<Rightarrow> Room \<Rightarrow> User \<Rightarrow> Store \<Rightarrow> Store \<times> outbound list" where
  "create roomId userId room0 user0 s =
     (let user = user0\<lparr>user_id := userId, isHost := True\<rparr>;
          room = room0\<lparr>room_id := roomId, userIds := userIds room0 @ [userId]\<rparr>
      in (setRoom room (setUser user s), [Emit ''create'']))"

definition join :: "string \<Rightarrow> string \<Rightarrow> User \<Rightarrow> Store \<Rightarrow> Store \<times> outbound list" where
  "join userId roomId user0 s =
     (let user = user0\<lparr>user_id := userId, isHost := False\<rparr>
      in case getRoom s roomId of
           Some room0 \<Rightarrow>
             if \<not> inProgress room0 then
               (let room = room0\<lparr>userIds := userIds room0 @ [userId]\<rparr>
                in (setUser user (setRoom room s), [Emit ''join'', Broadcast ''onMemberChanged'']))
             else (s, [Log ''join: Room not found or already started.''])
         | None \<Rightarrow> (s, [Log ''join: Room not found or already started.'']))"

definition getRoom_handler :: "string \<Rightarrow> Store \<Rightarrow> Store \<times> outbound list" where
  "getRoom_handler roomId s =
     (case getRoom s roomId of
        Some room \<Rightarrow> (s, [Emit ''getRoom''])
      | None \<Rightarrow> (s, [Log ''getRoom: Room not found'']))"

definition getUser_handler :: "string \<Rightarrow> Store \<Rightarrow> Store \<times> outbound list" where
  "getUser_handler userId s =
     (case find (\<lambda>v. user_id v = userId) (getUsers s) of
        Some user \<Rightarrow> (s, [Emit ''getUser''])
      | None \<Rightarrow> (s, [Log ''getUser: User not found'']))"

definition leave :: "string \<Rightarrow> User \<Rightarrow> Store \<Rightarrow> Store \<times> outbound list" where
  "leave roomId user s =
     (case getRoom s roomId of
        Some room0 \<Rightarrow>
          (let room = room0\<lparr>userIds := filter (\<lambda>v. v \<noteq> user_id user) (userIds room0)\<rparr>
           in (setRoom room s, [Emit ''leave'', Broadcast ''onMemberChanged'']))
      | None \<Rightarrow> (s, [Log ''leave: Room not found'']))"

subsection \<open>Role assignment\<close>

text \<open>
  The six counting loops that fill \<^verbatim>\<open>choices\<close>; a loop over a count that is zero or
  negative pushes nothing.
\<close>

definition buildChoices :: "Rule \<Rightarrow> ROLE list" where
  "buildChoices r =
     replicate (nat (wereWolves r)) WereWolf @ replicate (nat (fortuneTellers r)) FortuneTeller @
     replicate (nat (mediumns r)) Medium @ replicate (nat (hunters r)) Hunter @
     replicate (nat (maniacs r)) Maniac @ replicate (nat (villagers r)) Villager"

text \<open>
  The Fisher-Yates loop, \<open>i\<close> running down to 1. \<^verbatim>\<open>Math.floor(Math.random() * (i + 1))\<close>
  is an integer from 0 to \<open>i\<close>; the draw of round \<open>i\<close> is \<open>rnd i mod (i + 1)\<close> for an
  arbitrary \<open>rnd\<close>, which ranges over exactly these.
\<close>

fun shuffle :: "(nat \<Rightarrow> nat) \<Rightarrow> nat \<Rightarrow> ROLE list \<Rightarrow> ROLE list" where
  "shuffle rnd 0 choices = choices"
| "shuffle rnd (Suc n) choices =
     (let i = Suc n;
          r = rnd i mod (i + 1);
          tmp = choices ! i
      in shuffle rnd n (choices[i := choices ! r, r := tmp]))"

text \<open>\<^verbatim>\<open>choices[i]\<close>: \<^verbatim>\<open>undefined\<close> past the end.\<close>

definition at_index :: "'a list \<Rightarrow> nat \<Rightarrow> 'a option" where
  "at_index xs i = (if i < length xs then Some (xs ! i) else None)"

text \<open>The loop over \<^verbatim>\<open>room.userIds\<close>, from index \<open>i\<close> on; the list is the ids still to do.\<close>

fun assignRoles :: "ROLE list \<Rightarrow> nat \<Rightarrow> string list \<Rightarrow> Store \<Rightarrow> Store \<times> outbound list" where
  "assignRoles choices i [] s = (s, [])"
| "assignRoles choices i (u # rest) s =
     (case getUser s u of
        Some user \<Rightarrow> assignRoles choices (Suc i) rest (setUser (user\<lparr>role := at_index choices i\<rparr>) s)
      | None \<Rightarrow>
          (case assignRoles choices (Suc i) rest s of
             (s', out) \<Rightarrow> (s', Log ''choice: User not found'' # out)))"

definition choice :: "(nat \<Rightarrow> nat) \<Rightarrow> string \<Rightarrow> Store \<Rightarrow> Store \<times> outbound list" where
  "choice rnd roomId s =
     (case getRoom s roomId of
        Some room \<Rightarrow>
          (let choices0 = buildChoices (rule room);
               choices = shuffle rnd (length choices0 - 1) choices0
           in case assignRoles choices 0 (userIds room) s of
                (s1, logs) \<Rightarrow>
                  (setRoom (room\<lparr>days := days room + 1\<rparr>) s1, logs @ [Broadcast ''choice'']))
      | None \<Rightarrow> (s, [Log ''choice: Room not found'']))"

subsection \<open>Votes\<close>

definition vote :: "string \<Rightarrow> string \<Rightarrow> Store \<Rightarrow> Store \<times> outbound list" where
  "vote roomId userId s =
     (case getRoom s roomId of
        Some room \<Rightarrow>
          (case getUser s userId of
             Some user \<Rightarrow> (setUser (user\<lparr>voteCount := voteCount user + 1\<rparr>) s, [Emit ''vote''])
           | None \<Rightarrow> (s, [Log ''vote: User not found'']))
      | None \<Rightarrow> (s, [Log ''vote: Room not found'']))"

definition murder :: "string \<Rightarrow> string \<Rightarrow> Store \<Rightarrow> Store \<times> outbound list" where
  "murder roomId userId s =
     (case getRoom s roomId of
        Some room \<Rightarrow>
          (case getUser s userId of
             Some user \<Rightarrow> (setUser (user\<lparr>voteCount := voteCount user + 1\<rparr>) s, [Emit ''murder''])
           | None \<Rightarrow> (s, [Log ''murder: User not found'']))
      | None \<Rightarrow> (s, [Log ''murder: Room not found'']))"

definition hunt :: "string \<Rightarrow> string \<Rightarrow> Store \<Rightarrow> Store \<times> outbound list" where
  "hunt roomId userId s =
     (case getRoom s roomId of
        Some room \<Rightarrow>
          (case getUser s userId of
             Some user \<Rightarrow> (setRoom (room\<lparr>lastHunted := Some (user_id user)\<rparr>) s, [Emit ''hunt''])
           | None \<Rightarrow> (s, [Log ''murder: User not found'']))
      | None \<Rightarrow> (s, [Log ''hunt: Room not found'']))"

subsection \<open>Phase barriers\<close>

definition awaitStart :: "string \<Rightarrow> string \<Rightarrow> Store \<Rightarrow> Store \<times> outbound list" where
  "awaitStart roomId userId s =
     (case getRoom s roomId of
        Some room \<Rightarrow>
          (case getUser s userId of
             Some user \<Rightarrow>
               (let s1 = setUser (user\<lparr>isAwaiting := True\<rparr>) s
                in if checkAwaitStatus s1 room then
                     (let s2 = resetIsAwaiting s1 room;
                          room1 = room\<lparr>inProgress := True, days := days room + 1,
                                        phase := Discussion\<rparr>
                      in (setRoom room1 s2, [Broadcast ''awaitStart'']))
                   else (s1, []))
           | None \<Rightarrow> (s, [Log ''awaitStart: User not found'']))
      | None \<Rightarrow> (s, [Log ''awaitStart: Room not found'']))"

definition awaitDiscussion :: "string \<Rightarrow> string \<Rightarrow> Store \<Rightarrow> Store \<times> outbound list" where
  "awaitDiscussion roomId userId s =
     (case getRoom s roomId of
        Some room \<Rightarrow>
          (case getUser s userId of
             Some user \<Rightarrow>
               (let s1 = setUser (user\<lparr>isAwaiting := True\<rparr>) s
                in if checkAwaitStatus s1 room then
                     (let s2 = resetIsAwaiting s1 room;
                          room1 = room\<lparr>lastLynched := None, lastMurdered := None,
                                        phase := Voting\<rparr>
                      in (setRoom room1 s2, [Broadcast ''awaitDiscussion'']))
                   else (s1, []))
           | None \<Rightarrow> (s, [Log ''awaitDiscussion: User not found'']))
      | None \<Rightarrow> (s, [Log ''awaitDiscussion: Room not found'']))"

text \<open>
  The part of \<^verbatim>\<open>awaitVoting\<close> after \<^verbatim>\<open>suspects\<close> has been computed: the lynch check,
  then the phase change and the broadcast.
\<close>

definition awaitVoting_resolve :: "Store \<Rightarrow> Room \<Rightarrow> string list \<Rightarrow> Store \<times> outbound list" where
  "awaitVoting_resolve s room suspects =
     (case
        (if length suspects = 1 then
           (case getUser s (suspects ! 0) of
              Some user \<Rightarrow>
                (let s1 = setUser (user\<lparr>isAlive := False\<rparr>) s;
                     room1 = room\<lparr>lastLynched := Some (suspects ! 0), isFinalVoting := False\<rparr>
                 in (resetVoteCount (setRoom room1 s1) room1, room1, []))
            | None \<Rightarrow> (s, room, [Log ''awaitVoting: User not found'']))
         else if \<not> isFinalVoting room then
           (let room1 = room\<lparr>isFinalVoting := True\<rparr>
            in (resetVoteCount (setRoom room1 s) room1, room1, []))
         else
           (let room1 = room\<lparr>isFinalVoting := False\<rparr>
            in (resetVoteCount (setRoom room1 s) room1, room1, [])))
      of (s2, room2, logs) \<Rightarrow>
        (setRoom (room2\<lparr>phase := VotingResult\<rparr>) s2, logs @ [Broadcast ''awaitVoting'']))"

definition awaitVoting :: "string \<Rightarrow> string \<Rightarrow> Store \<Rightarrow> Store \<times> outbound list" where
  "awaitVoting roomId userId s =
     (case getRoom s roomId of
        Some room \<Rightarrow>
          (case getUser s userId of
             Some user \<Rightarrow>
               (let s1 = setUser (user\<lparr>isAwaiting := True\<rparr>) s
                in if checkAwaitStatus s1 room then
                     (let s2 = resetIsAwaiting s1 room;
                          suspects = getSuspects s2 room
                      in awaitVoting_resolve s2 room suspects)
                   else (s1, []))
           | None \<Rightarrow> (s, [Log ''awaitVoting: User not found'']))
      | None \<Rightarrow> (s, [Log ''awaitVoting: Room not found'']))"

definition awaitVotingResult :: "string \<Rightarrow> string \<Rightarrow> Store \<Rightarrow> Store \<times> outbound list" where
  "awaitVotingResult roomId userId s =
     (case getRoom s roomId of
        Some room \<Rightarrow>
          (case getUser s userId of
             Some user \<Rightarrow>
               (let s1 = setUser (user\<lparr>isAwaiting := True\<rparr>) s
                in if checkAwaitStatus s1 room then
                     (let s2 = resetIsAwaiting s1 room
                      in if isFinalVoting room then
                           (setRoom (room\<lparr>phase := Discussion\<rparr>) s2,
                            [Broadcast ''awaitVotingResult''])
                         else
                           (let status = judge s2 roomId
                            in if status = HUMAN_WIN \<or> status = WOLVES_WIN then
                                 (s2, [Broadcast ''gameSet''])
                               else
                                 (setRoom (room\<lparr>phase := Night\<rparr>) s2,
                                  [Broadcast ''awaitVotingResult''])))
                   else (s1, []))
           | None \<Rightarrow> (s, [Log ''awaitVotingResult: User not found'']))
      | None \<Rightarrow> (s, [Log ''awaitVotingResult: Room not found'']))"

text \<open>
  The part of \<^verbatim>\<open>awaitNight\<close> after \<^verbatim>\<open>suspects\<close> has been computed: the attack, the
  judge, and either the end of the game or the next day.
\<close>

definition awaitNight_resolve ::
  "string \<Rightarrow> Store \<Rightarrow> Room \<Rightarrow> string list \<Rightarrow> Store \<times> outbound list" where
  "awaitNight_resolve roomId s room suspects =
     (case
        (if length suspects = 1 then
           (case getUser s (suspects ! 0) of
              Some user \<Rightarrow>
                if Some (user_id user) = lastHunted room then (s, room, [])
                else
                  (let s1 = setUser (user\<lparr>isAlive := False\<rparr>) s;
                       room1 = room\<lparr>lastMurdered := Some (suspects ! 0)\<rparr>
                   in (setRoom room1 s1, room1, []))
            | None \<Rightarrow> (s, room, [Log ''awaitNight: User not found'']))
         else (s, room, []))
      of (s2, room2, logs) \<Rightarrow>
        (let status = judge s2 roomId
         in if status = HUMAN_WIN \<or> status = WOLVES_WIN then
              (s2, logs @ [Broadcast ''gameSet''])
            else
              (let s3 = resetVoteCount s2 room2;
                   room3 = room2\<lparr>lastHunted := None, days := days room2 + 1,
                                  phase := Discussion\<rparr>
               in (setRoom room3 s3, logs @ [Broadcast ''awaitNight'']))))"

definition awaitNight :: "string \<Rightarrow> string \<Rightarrow> Store \<Rightarrow> Store \<times> outbound list" where
  "awaitNight roomId userId s =
     (case getRoom s roomId of
        Some room \<Rightarrow>
          (case getUser s userId of
             Some user \<Rightarrow>
               (let s1 = setUser (user\<lparr>isAwaiting := True\<rparr>) s
                in if checkAwaitStatus s1 room then
                     (let s2 = resetIsAwaiting s1 room;
                          suspects = getSuspects s2 room
                      in awaitNight_resolve roomId s2 room suspects)
                   else (s1, []))
           | None \<Rightarrow> (s, [Log ''awaitNight: User not found'']))
      | None \<Rightarrow> (s, [Log ''awaitNight: Room not found'']))"

subsection \<open>Dispatch\<close>

text \<open>
  The inbound events of \<^verbatim>\<open>io.on('connection', ...)\<close>, each with the arguments the client
  sends; \<open>Create\<close> and \<open>Join\<close> also carry the ids drawn for them and \<open>Choice\<close> the random
  draws.
\<close>

datatype event =
    Create string string Room User
  | Join string string User
  | GetRoom string
  | GetUser string
  | Leave string User
  | Choice "nat \<Rightarrow> nat" string
  | Vote string string
  | Murder string string
  | Hunt string string
  | AwaitStart string string
  | AwaitDiscussion string string
  | AwaitVoting string string
  | AwaitVotingResult string string
  | AwaitNight string string

fun handle :: "event \<Rightarrow> Store \<Rightarrow> Store \<times> outbound list" where
  "handle (Create roomId userId room user) s = create roomId userId room user s"
| "handle (Join userId roomId user) s = join userId roomId user s"
| "handle (GetRoom roomId) s = getRoom_handler roomId s"
| "handle (GetUser userId) s = getUser_handler userId s"
| "handle (Leave roomId user) s = leave roomId user s"
| "handle (Choice rnd roomId) s = choice rnd roomId s"
| "handle (Vote roomId userId) s = vote roomId userId s"
| "handle (Murder roomId userId) s = murder roomId userId s"
| "handle (Hunt roomId userId) s = hunt roomId userId s"
| "handle (AwaitStart roomId userId) s = awaitStart roomId userId s"
| "handle (AwaitDiscussion roomId userId) s = awaitDiscussion roomId userId s"
| "handle (AwaitVoting roomId userId) s = awaitVoting roomId userId s"
| "handle (AwaitVotingResult roomId userId) s = awaitVotingResult roomId userId s"
| "handle (AwaitNight roomId userId) s = awaitNight roomId userId s"

text \<open>The ids an event carries that its handler looks up in the store.\<close>

fun looked_up_room :: "event \<Rightarrow> string option" where
  "looked_up_room (Create roomId userId room user) = None"
| "looked_up_room (Join userId roomId user) = Some roomId"
| "looked_up_room (GetRoom roomId) = Some roomId"
| "looked_up_room (GetUser userId) = None"
| "looked_up_room (Leave roomId user) = Some roomId"
| "looked_up_room (Choice rnd roomId) = Some roomId"
| "looked_up_room (Vote roomId userId) = Some roomId"
| "looked_up_room (Murder roomId userId) = Some roomId"
| "looked_up_room (Hunt roomId userId) = Some roomId"
| "looked_up_room (AwaitStart roomId userId) = Some roomId"
| "looked_up_room (AwaitDiscussion roomId userId) = Some roomId"
| "looked_up_room (AwaitVoting roomId userId) = Some roomId"
| "looked_up_room (AwaitVotingResult roomId userId) = Some roomId"
| "looked_up_room (AwaitNight roomId userId) = Some roomId"

fun looked_up_user :: "event \<Rightarrow> string option" where
  "looked_up_user (GetUser userId) = Some userId"
| "looked_up_user (Vote roomId userId) = Some userId"
| "looked_up_user (Murder roomId userId) = Some userId"
| "looked_up_user (Hunt roomId userId) = Some userId"
| "looked_up_user (AwaitStart roomId userId) = Some userId"
| "looked_up_user (AwaitDiscussion roomId userId) = Some userId"
| "looked_up_user (AwaitVoting roomId userId) = Some userId"
| "looked_up_user (AwaitVotingResult roomId userId) = Some userId"
| "looked_up_user (AwaitNight roomId userId) = Some userId"
| "looked_up_user _ = None"

definition not_found :: "event \<Rightarrow> Store \<Rightarrow> bool" where
  "not_found e s \<longleftrightarrow>
     (case looked_up_room e of Some i \<Rightarrow> getRoom s i = None | None \<Rightarrow> False) \<or>
     (case looked_up_user e of Some i \<Rightarrow> getUser s i = None | None \<Rightarrow> False)"

definition is_Log :: "outbound \<Rightarrow> bool" where
  "is_Log m = (case m of Log t \<Rightarrow> True | _ \<Rightarrow> False)"

section \<open>Vocabulary for the proofs\<close>

text \<open>
  The member ids of a stored room, the stores in which every room has a member, and a
  store with every user record changed by \<open>g\<close>.
\<close>

definition member_ids :: "Store \<Rightarrow> string \<Rightarrow> string set" where
  "member_ids s i = (case getRoom s i of Some r \<Rightarrow> set (userIds r) | None \<Rightarrow> {})"

definition has_members :: "Store \<Rightarrow> bool" where
  "has_members s \<longleftrightarrow> (\<forall>r\<in>set (rooms s). userIds r \<noteq> [])"

definition map_users :: "(User \<Rightarrow> User) \<Rightarrow> Store \<Rightarrow> Store" where
  "map_users g s = s\<lparr>users := map g (users s)\<rparr>"

text \<open>
  A stored user as it is read back, and the changes \<open>g\<close> of a record that keep its id
  and can be made before or after reading.
\<close>

definition read_back :: "User \<Rightarrow> User" where
  "read_back u = u\<lparr>role := (case role u of Some r \<Rightarrow> Some r | None \<Rightarrow> Some WereWolf)\<rparr>"

definition keeps_id :: "(User \<Rightarrow> User) \<Rightarrow> bool" where
  "keeps_id g \<longleftrightarrow>
     (\<forall>u. user_id (g u) = user_id u) \<and> (\<forall>u. read_back (g u) = g (read_back u))"

text \<open>
  What a completed barrier does to a user record (\<open>i\<close> signalled, \<open>M\<close> are the members),
  what \<^verbatim>\<open>resetVoteCount\<close> does to it, and what a lynch or an attack on \<open>t\<close> does to it.
\<close>

definition after_barrier :: "string set \<Rightarrow> string \<Rightarrow> User \<Rightarrow> User" where
  "after_barrier M i w =
     (if user_id w \<noteq> [] \<and> user_id w \<in> M then (read_back w)\<lparr>isAwaiting := False\<rparr>
      else if user_id w = i then (read_back w)\<lparr>isAwaiting := True\<rparr> else w)"

definition zero_votes :: "string set \<Rightarrow> User \<Rightarrow> User" where
  "zero_votes M w =
     (if user_id w \<noteq> [] \<and> user_id w \<in> M then (read_back w)\<lparr>voteCount := 0\<rparr> else w)"

definition kill :: "string \<Rightarrow> User \<Rightarrow> User" where
  "kill t w = (if user_id w = t then (read_back w)\<lparr>isAlive := False\<rparr> else w)"

section \<open>Example stores\<close>

definition ex_user :: "string \<Rightarrow> ROLE \<Rightarrow> bool \<Rightarrow> int \<Rightarrow> bool \<Rightarrow> User" where
  "ex_user i r alive votes ready =
     \<lparr>user_id = i, user_name = i, isHost = False, role = Some r, isAlive = alive,
      voteCount = votes, isAwaiting = ready\<rparr>"

definition ex_rule :: Rule where
  "ex_rule = \<lparr>wereWolves = 1, fortuneTellers = 0, mediumns = 0, hunters = 0, maniacs = 0,
              villagers = 2\<rparr>"

definition ex_room :: "PHASE \<Rightarrow> bool \<Rightarrow> string option \<Rightarrow> Room" where
  "ex_room p fin hunted =
     \<lparr>room_id = ''r'', room_name = ''room'', rule = ex_rule, userIds = [''a'', ''b'', ''c''],
      inProgress = True, days = 1, phase = p, isFinalVoting = fin, lastLynched = None,
      lastMurdered = None, lastHunted = hunted\<rparr>"

text \<open>One wolf and two villagers voting; \<open>a\<close> and \<open>b\<close> tie with one vote each.\<close>

definition ex_tie :: Store where
  "ex_tie = \<lparr>rooms = [ex_room Voting False None],
             users = [ex_user ''a'' WereWolf True 1 False, ex_user ''b'' Villager True 1 True,
                      ex_user ''c'' Villager True 0 True]\<rparr>"

text \<open>The same room with \<open>b\<close> alone on top; \<open>fin\<close> is the final-voting flag.\<close>

definition ex_unique :: "bool \<Rightarrow> Store" where
  "ex_unique fin = \<lparr>rooms = [ex_room Voting fin None],
             users = [ex_user ''a'' WereWolf True 0 False, ex_user ''b'' Villager True 2 True,
                      ex_user ''c'' Villager True 1 True]\<rparr>"

text \<open>Night: \<open>b\<close> has all three attack votes and is the protected user.\<close>

definition ex_night :: Store where
  "ex_night = \<lparr>rooms = [ex_room Night False (Some ''b'')],
             users = [ex_user ''a'' WereWolf True 0 False, ex_user ''b'' Villager True 3 True,
                      ex_user ''c'' Villager True 0 True]\<rparr>"

text \<open>
  Two rooms. In room \<open>r\<close> one living wolf faces one living villager (\<open>c\<close> is dead and
  not ready) and \<open>b\<close> leads the vote; \<open>x\<close> and \<open>y\<close> of room \<open>q\<close> are alive, not ready,
  and \<open>x\<close> has more votes than anyone in \<open>r\<close>.
\<close>

definition ex_crowd :: Store where
  "ex_crowd = \<lparr>rooms = [ex_room VotingResult False None,
                       (ex_room Start False None)\<lparr>room_id := ''q'', userIds := [''x'', ''y'']\<rparr>],
             users = [ex_user ''a'' WereWolf True 0 True, ex_user ''b'' Villager True 2 True,
                      ex_user ''c'' Villager False 1 False, ex_user ''x'' Villager True 9 False,
                      ex_user ''y'' Villager True 0 False]\<rparr>"

text \<open>
  Two rooms. In room \<open>r\<close> one living wolf faces three living villagers; room \<open>q\<close> holds
  three more living wolves.
\<close>

definition ex_pack :: Store where
  "ex_pack = \<lparr>rooms = [(ex_room VotingResult False None)\<lparr>userIds := [''a'', ''b'', ''c'', ''d'']\<rparr>,
                      (ex_room Start False None)\<lparr>room_id := ''q'', userIds := [''x'', ''y'', ''z'']\<rparr>],
             users = [ex_user ''a'' WereWolf True 0 True, ex_user ''b'' Villager True 0 True,
                      ex_user ''c'' Villager True 0 True, ex_user ''d'' Villager True 0 True,
                      ex_user ''x'' WereWolf True 0 True, ex_user ''y'' WereWolf True 0 True,
                      ex_user ''z'' WereWolf True 0 True]\<rparr>"




text \<open>A room whose member \<open>c\<close> has no User record.\<close>

definition ex_ghost :: Store where
  "ex_ghost = \<lparr>rooms = [ex_room Start False None],
             users = [ex_user ''a'' WereWolf True 0 False, ex_user ''b'' Villager True 0 False]\<rparr>"

definition ex_rnd :: "nat \<Rightarrow> nat" where
  "ex_rnd i = 0"

section \<open>Auxiliary lemmas\<close>

subsection \<open>Lists of records under a key\<close>

lemma find_Some_key: "find (\<lambda>x. key x = i) xs = Some y \<Longrightarrow> key y = i \<and> y \<in> set xs"
  by (induction xs) (auto split: if_splits)

lemma find_None_key: "find (\<lambda>x. key x = i) xs = None \<longleftrightarrow> i \<notin> key ` set xs"
  by (induction xs) auto

lemma find_app:
  "find P (xs @ ys) = (case find P xs of None \<Rightarrow> find P ys | Some x \<Rightarrow> Some x)"
  by (induction xs) auto

lemma find_put:
  "find (\<lambda>y. key y = i) (put key x xs) = (if i = key x then Some x else find (\<lambda>y. key y = i) xs)"
proof (cases "key x \<in> key ` set xs")
  case True
  have "find (\<lambda>y. key y = i) (map (\<lambda>y. if key y = key x then x else y) ys) =
        (if i = key x then (if key x \<in> key ` set ys then Some x else None)
         else find (\<lambda>y. key y = i) ys)" for ys
    by (induction ys) auto
  with True show ?thesis by (simp add: put_def)
next
  case False
  then have "find (\<lambda>y. key y = key x) xs = None" by (simp add: find_None_key)
  with False show ?thesis by (auto simp: put_def find_app split: option.splits)
qed

lemma keys_put:
  "map key (put key x xs) = (if key x \<in> key ` set xs then map key xs else map key xs @ [key x])"
  by (auto simp: put_def)

lemma distinct_put: "distinct (map key xs) \<Longrightarrow> distinct (map key (put key x xs))"
  by (auto simp: keys_put)

lemma find_map_key:
  "(\<And>x. key (g x) = key x) \<Longrightarrow>
   find (\<lambda>y. key y = i) (map g xs) = map_option g (find (\<lambda>y. key y = i) xs)"
  by (induction xs) auto

lemma put_present:
  "key x \<in> key ` set xs \<Longrightarrow> put key x xs = map (\<lambda>y. if key y = key x then x else y) xs"
  by (simp add: put_def)

lemma put_put:
  assumes "key y = key x"
  shows "put key y (put key x xs) = put key y xs"
proof (cases "key x \<in> key ` set xs")
  case True
  have "map key (map (\<lambda>z. if key z = key x then x else z) xs) = map key xs"
    by (induction xs) auto
  then have "key ` set (map (\<lambda>z. if key z = key x then x else z) xs) = key ` set xs"
    by (metis set_map)
  with True assms have "key y \<in> key ` set (map (\<lambda>z. if key z = key x then x else z) xs)"
    by simp
  with True assms show ?thesis by (simp add: put_def comp_def)
next
  case False
  have "key z \<noteq> key x" if "z \<in> set xs" for z
    using False that by (metis image_eqI)
  then have "map (\<lambda>z. if key z = key x then y else z) xs = xs"
    by (simp add: map_idI)
  with False assms show ?thesis by (simp add: put_def)
qed

lemma distinct_key: "distinct (map key xs) \<Longrightarrow> distinct xs"
  by (rule distinct_map[THEN iffD1, THEN conjunct1])

lemma fold_put_gen:
  assumes "\<And>x. key (f x) = key x"
  shows "distinct (map key cur) \<Longrightarrow> set vs \<subseteq> set cur \<Longrightarrow> distinct (map key vs) \<Longrightarrow>
         fold (\<lambda>v. put key (f v)) vs cur = map (\<lambda>x. if x \<in> set vs then f x else x) cur"
proof (induction vs arbitrary: cur)
  case Nil
  then show ?case by simp
next
  case (Cons v vs)
  let ?cur' = "map (\<lambda>y. if y = v then f y else y) cur"
  have inj: "inj_on key (set cur)" using Cons.prems(1) by (simp add: distinct_map)
  have vin: "v \<in> set cur" using Cons.prems(2) by simp
  have step: "put key (f v) cur = ?cur'"
  proof -
    have "key (f v) \<in> key ` set cur" using vin assms by force
    then have "put key (f v) cur = map (\<lambda>y. if key y = key (f v) then f v else y) cur"
      by (rule put_present)
    also have "\<dots> = ?cur'"
      using inj vin by (auto simp: assms inj_on_def)
    finally show ?thesis .
  qed
  have notin: "key v \<notin> key ` set vs" using Cons.prems(3) by auto
  have k': "map key ?cur' = map key cur" by (auto simp: assms)
  have d': "distinct (map key ?cur')" using Cons.prems(1) by (simp only: k')
  have sub': "set vs \<subseteq> set ?cur'"
  proof
    fix w assume w: "w \<in> set vs"
    then have "w \<in> set cur" "w \<noteq> v" using Cons.prems(2) notin by auto
    then show "w \<in> set ?cur'" by force
  qed
  have dv: "distinct (map key vs)" using Cons.prems(3) by simp
  have fv: "f v \<notin> set vs" using notin assms[of v] by (metis image_eqI)
  have "fold (\<lambda>v. put key (f v)) (v # vs) cur = fold (\<lambda>v. put key (f v)) vs ?cur'"
    by (simp add: step)
  also have "\<dots> = map (\<lambda>x. if x \<in> set vs then f x else x) ?cur'"
    by (rule Cons.IH[OF d' sub' dv])
  also have "\<dots> = map (\<lambda>x. if x \<in> set (v # vs) then f x else x) cur"
    using fv by auto
  finally show ?case .
qed

lemma fold_put_filter:
  assumes "\<And>x. key (f x) = key x" "distinct (map key xs)"
  shows "fold (\<lambda>v. put key (f v)) (filter P xs) xs = map (\<lambda>x. if P x then f x else x) xs"
proof -
  have "fold (\<lambda>v. put key (f v)) (filter P xs) xs =
        map (\<lambda>x. if x \<in> set (filter P xs) then f x else x) xs"
    using assms by (intro fold_put_gen) (auto intro: distinct_map_filter)
  also have "\<dots> = map (\<lambda>x. if P x then f x else x) xs" by auto
  finally show ?thesis .
qed

lemma length_filter_eq_iff: "length (filter P xs) = length xs \<longleftrightarrow> (\<forall>x\<in>set xs. P x)"
  by (metis filter_True filter_id_conv length_filter_less order_less_irrefl)

lemma filter_unique:
  "distinct xs \<Longrightarrow> u \<in> set xs \<Longrightarrow> (\<And>x. x \<in> set xs \<Longrightarrow> P x \<longleftrightarrow> x = u) \<Longrightarrow> filter P xs = [u]"
proof (induction xs)
  case Nil
  then show ?case by simp
next
  case (Cons a xs)
  show ?case
  proof (cases "a = u")
    case True
    with Cons.prems have "filter P xs = []" by (auto simp: filter_empty_conv)
    with True Cons.prems(3)[of a] show ?thesis by simp
  next
    case False
    with Cons show ?thesis by auto
  qed
qed

lemma card_filter_set: "distinct xs \<Longrightarrow> card {u \<in> set xs. P u} = length (filter P xs)"
  using distinct_card[of "filter P xs"] by simp

lemma fold_map_list: "fold f (map h xs) s = fold (\<lambda>x. f (h x)) xs s"
  by (induction xs arbitrary: s) auto

subsection \<open>Store operations\<close>

lemma user_id_read_back [simp]: "user_id (read_back u) = user_id u"
  by (simp add: read_back_def)

lemma isAlive_read_back [simp]: "isAlive (read_back u) = isAlive u"
  by (simp add: read_back_def)

lemma voteCount_read_back [simp]: "voteCount (read_back u) = voteCount u"
  by (simp add: read_back_def)

lemma isAwaiting_read_back [simp]: "isAwaiting (read_back u) = isAwaiting u"
  by (simp add: read_back_def)

lemma read_back_idem [simp]: "read_back (read_back u) = read_back u"
  by (simp add: read_back_def split: option.splits)


lemma read_back_isAwaiting [simp]: "read_back (u\<lparr>isAwaiting := b\<rparr>) = (read_back u)\<lparr>isAwaiting := b\<rparr>"
  by (simp add: read_back_def)

lemma read_back_voteCount [simp]: "read_back (u\<lparr>voteCount := n\<rparr>) = (read_back u)\<lparr>voteCount := n\<rparr>"
  by (simp add: read_back_def)

lemma read_back_isAlive [simp]: "read_back (u\<lparr>isAlive := b\<rparr>) = (read_back u)\<lparr>isAlive := b\<rparr>"
  by (simp add: read_back_def)

lemma mapUser_read_back: "mapUser u = (if user_id u \<noteq> [] then Some (read_back u) else None)"
  by (simp add: mapUser_def read_back_def)

lemma getUsers_eq: "getUsers s = map read_back (filter (\<lambda>u. user_id u \<noteq> []) (users s))"
proof -
  have "List.map_filter mapUser xs = map read_back (filter (\<lambda>u. user_id u \<noteq> []) xs)" for xs
    by (induction xs) (simp_all add: List.map_filter_simps mapUser_read_back)
  then show ?thesis by (simp add: getUsers_def)
qed

lemma getUser_find:
  "getUser s i =
     (case find (\<lambda>u. user_id u = i) (users s) of
        Some w \<Rightarrow> if i \<noteq> [] then Some (read_back w) else None
      | None \<Rightarrow> None)"
proof (cases "find (\<lambda>u. user_id u = i) (users s)")
  case None
  then show ?thesis by (simp add: getUser_def)
next
  case (Some w)
  then have "user_id w = i" using find_Some_key[of user_id i "users s" w] by simp
  with Some show ?thesis by (simp add: getUser_def mapUser_read_back)
qed

lemma getUser_None: "getUser s i = None \<longleftrightarrow> i = [] \<or> i \<notin> user_id ` set (users s)"
  using find_None_key[of user_id i "users s"]
  by (auto simp: getUser_find split: option.splits)

lemma getUser_stored:
  assumes "getUser s i = Some u"
  shows "\<exists>w. find (\<lambda>u. user_id u = i) (users s) = Some w \<and> u = read_back w \<and> i \<noteq> []"
  using assms by (auto simp: getUser_find split: option.splits if_splits)

lemma find_getUsers: "find (\<lambda>v. user_id v = i) (getUsers s) = getUser s i"
proof -
  have "find (\<lambda>v. user_id v = i) (map read_back (filter (\<lambda>u. user_id u \<noteq> []) xs)) =
        (case find (\<lambda>u. user_id u = i) xs of
           Some w \<Rightarrow> if i \<noteq> [] then Some (read_back w) else None
         | None \<Rightarrow> None)" for xs
    by (induction xs) (auto split: option.splits)
  then show ?thesis by (simp add: getUsers_eq getUser_find)
qed

lemma getRoom_find:
  "getRoom s i = Some r \<longleftrightarrow> find (\<lambda>r. room_id r = i) (rooms s) = Some r \<and> i \<noteq> []"
proof (cases "find (\<lambda>r. room_id r = i) (rooms s)")
  case None
  then show ?thesis by (simp add: getRoom_def)
next
  case (Some w)
  then have "room_id w = i" using find_Some_key[of room_id i "rooms s" w] by simp
  with Some show ?thesis by (auto simp: getRoom_def mapRoom_def)
qed

lemma getRoom_id: "getRoom s i = Some r \<Longrightarrow> room_id r = i"
proof -
  assume "getRoom s i = Some r"
  then have "find (\<lambda>r. room_id r = i) (rooms s) = Some r" by (simp add: getRoom_find)
  then show ?thesis using find_Some_key[of room_id i "rooms s" r] by simp
qed

lemma getRoom_nonempty: "getRoom s i = Some r \<Longrightarrow> i \<noteq> []"
  unfolding getRoom_find by simp

lemma getUser_id: "getUser s i = Some u \<Longrightarrow> user_id u = i"
  using getUser_stored[of s i u] find_Some_key[of user_id i "users s"] by auto



lemma getRoom_setRoom:
  "userIds r \<noteq> [] \<Longrightarrow> room_id r \<noteq> [] \<Longrightarrow>
   getRoom (setRoom r s) i =
     (if i = room_id r then Some (r\<lparr>userIds := rev (userIds r)\<rparr>) else getRoom s i)"
  by (simp add: getRoom_def mapRoom_def setRoom_def find_put)

lemma getUser_setRoom [simp]: "getUser (setRoom r s) i = getUser s i"
  by (simp add: getUser_def setRoom_def)

lemma users_setRoom [simp]: "users (setRoom r s) = users s"
  by (simp add: setRoom_def)

lemma getUsers_setRoom [simp]: "getUsers (setRoom r s) = getUsers s"
  by (simp add: getUsers_def)

lemma getRoom_setUser [simp]: "getRoom (setUser u s) i = getRoom s i"
  by (simp add: getRoom_def setUser_def)

lemma setRoom_setRoom:
  "room_id r' = room_id r \<Longrightarrow> userIds r' \<noteq> [] \<Longrightarrow> setRoom r' (setRoom r s) = setRoom r' s"
  by (simp add: setRoom_def put_put)

lemma wf_setUser: "wf_store s \<Longrightarrow> wf_store (setUser u s)"
  by (simp add: wf_store_def setUser_def distinct_put)

lemma wf_setRoom: "wf_store s \<Longrightarrow> wf_store (setRoom r s)"
  by (simp add: wf_store_def setRoom_def distinct_put)

lemma wf_unique_user:
  assumes "wf_store s" "getUser s i = Some u" "w \<in> set (users s)" "user_id w = i"
  shows "read_back w = u"
proof -
  from getUser_stored[OF assms(2)] obtain w' where
    w': "find (\<lambda>u. user_id u = i) (users s) = Some w'" "u = read_back w'" by auto
  then have "w' \<in> set (users s)" "user_id w' = i"
    using find_Some_key[of user_id i "users s" w'] by auto
  moreover have "inj_on user_id (set (users s))"
    using assms(1) by (simp add: wf_store_def distinct_map)
  ultimately have "w = w'" using assms(3,4) by (auto simp: inj_on_def)
  then show ?thesis using w'(2) by simp
qed

lemma fold_setUser:
  "fold (\<lambda>v. setUser (f v)) vs s = s\<lparr>users := fold (\<lambda>v. put user_id (f v)) vs (users s)\<rparr>"
  by (induction vs arbitrary: s) (auto simp: setUser_def)

lemma getUsersInRoom_filter:
  "getUsersInRoom s i = filter (\<lambda>u. user_id u \<in> member_ids s i) (getUsers s)"
  by (auto simp: getUsersInRoom_def member_ids_def split: option.splits)

lemma getUsersInRoom_stored:
  "getUsersInRoom s i =
     map read_back (filter (\<lambda>u. user_id u \<noteq> [] \<and> user_id u \<in> member_ids s i) (users s))"
  unfolding getUsersInRoom_filter getUsers_eq
  by (simp add: filter_map comp_def conj_commute)

lemma getUsers_distinct: "wf_store s \<Longrightarrow> distinct (getUsers s)"
proof -
  assume "wf_store s"
  then have "distinct (map user_id (filter (\<lambda>u. user_id u \<noteq> []) (users s)))"
    by (simp add: wf_store_def distinct_map_filter)
  then have "distinct (map user_id (getUsers s))"
    by (simp add: getUsers_eq comp_def)
  then show ?thesis by (rule distinct_key)
qed

lemma getUsersInRoom_ids_distinct: "wf_store s \<Longrightarrow> distinct (map user_id (getUsersInRoom s i))"
  unfolding getUsersInRoom_stored
  by (simp add: wf_store_def comp_def distinct_map_filter)

lemma getUsersInRoom_distinct: "wf_store s \<Longrightarrow> distinct (getUsersInRoom s i)"
  by (rule distinct_key[OF getUsersInRoom_ids_distinct])

lemma in_room_member: "u \<in> set (getUsersInRoom s i) \<Longrightarrow> user_id u \<in> member_ids s i"
  by (simp add: getUsersInRoom_filter)

lemma in_room_nonempty: "u \<in> set (getUsersInRoom s i) \<Longrightarrow> user_id u \<noteq> []"
  by (auto simp: getUsersInRoom_stored)

lemma member_ids_Some: "getRoom s i = Some r \<Longrightarrow> member_ids s i = set (userIds r)"
  by (simp add: member_ids_def)

lemma member_ids_setRoom:
  "userIds r \<noteq> [] \<Longrightarrow> room_id r \<noteq> [] \<Longrightarrow>
   member_ids (setRoom r s) (room_id r) = set (userIds r)"
  by (simp add: member_ids_def getRoom_setRoom)

lemma members_nonempty:
  assumes "getRoom s i = Some r" "u \<in> set (getUsersInRoom s i)"
  shows "userIds r \<noteq> []"
  using in_room_member[OF assms(2)] member_ids_Some[OF assms(1)] by auto

subsection \<open>Changing every user record\<close>

lemma getRoom_map_users [simp]: "getRoom (map_users g s) i = getRoom s i"
  by (simp add: getRoom_def map_users_def)

lemma member_ids_map_users [simp]: "member_ids (map_users g s) i = member_ids s i"
  by (simp add: member_ids_def)

lemma keeps_id_user_id: "keeps_id g \<Longrightarrow> user_id (g u) = user_id u"
  by (simp add: keeps_id_def)

lemma keeps_id_read_back: "keeps_id g \<Longrightarrow> read_back (g u) = g (read_back u)"
  by (simp add: keeps_id_def)

lemma getUser_map_users: "keeps_id g \<Longrightarrow> getUser (map_users g s) i = map_option g (getUser s i)"
  unfolding getUser_def map_users_def
  by (simp add: find_map_key keeps_id_user_id keeps_id_read_back mapUser_read_back
      split: option.splits)

lemma getUsers_map_users: "keeps_id g \<Longrightarrow> getUsers (map_users g s) = map g (getUsers s)"
  unfolding getUsers_eq map_users_def
  by (simp add: filter_map comp_def keeps_id_user_id keeps_id_read_back)

lemma getUsersInRoom_map_users:
  "keeps_id g \<Longrightarrow> getUsersInRoom (map_users g s) i = map g (getUsersInRoom s i)"
  unfolding getUsersInRoom_filter member_ids_map_users
  by (simp add: getUsers_map_users filter_map comp_def keeps_id_user_id)

lemma wf_map_users: "keeps_id g \<Longrightarrow> wf_store s \<Longrightarrow> wf_store (map_users g s)"
  by (simp add: wf_store_def map_users_def keeps_id_user_id comp_def)

lemma map_users_comp: "map_users g (map_users h s) = map_users (g \<circ> h) s"
  by (simp add: map_users_def)

lemma setRoom_map_users: "map_users g (setRoom r s) = setRoom r (map_users g s)"
  by (simp add: setRoom_def map_users_def)

lemma keeps_id_comp: "keeps_id g \<Longrightarrow> keeps_id h \<Longrightarrow> keeps_id (g \<circ> h)"
  by (simp add: keeps_id_def)

lemma keeps_id_after_barrier [simp]: "keeps_id (after_barrier M i)"
  by (simp add: keeps_id_def after_barrier_def)

lemma keeps_id_zero_votes [simp]: "keeps_id (zero_votes M)"
  by (simp add: keeps_id_def zero_votes_def)

lemma keeps_id_kill [simp]: "keeps_id (kill t)"
  by (simp add: keeps_id_def kill_def)

lemma voteCount_after_barrier [simp]: "voteCount (after_barrier M i w) = voteCount w"
  by (simp add: after_barrier_def)

lemma isAlive_after_barrier [simp]: "isAlive (after_barrier M i w) = isAlive w"
  by (simp add: after_barrier_def)

lemma role_after_barrier [simp]: "role (after_barrier M i (read_back w)) = role (read_back w)"
  by (simp add: after_barrier_def)

lemma user_id_after_barrier [simp]: "user_id (after_barrier M i w) = user_id w"
  by (simp add: after_barrier_def)

lemma voteCount_zero_votes:
  "user_id w \<in> M \<Longrightarrow> user_id w \<noteq> [] \<Longrightarrow> voteCount (zero_votes M w) = 0"
  by (simp add: zero_votes_def)

lemma isAlive_zero_votes [simp]: "isAlive (zero_votes M w) = isAlive w"
  by (simp add: zero_votes_def)

lemma user_id_zero_votes [simp]: "user_id (zero_votes M w) = user_id w"
  by (simp add: zero_votes_def)

lemma user_id_kill [simp]: "user_id (kill t w) = user_id w"
  by (simp add: kill_def)

lemma wf_after_barrier: "wf_store s \<Longrightarrow> wf_store (map_users (after_barrier M i) s)"
  by (rule wf_map_users) simp_all

lemma setUser_eq:
  assumes "getUser s (user_id u) = Some v"
  shows "setUser u s = map_users (\<lambda>w. if user_id w = user_id u then u else w) s"
proof -
  have "user_id u \<in> user_id ` set (users s)"
    using assms getUser_None[of s "user_id u"] by auto
  then show ?thesis by (simp add: setUser_def map_users_def put_present)
qed

lemma setUser_modify:
  assumes "wf_store s" "getUser s i = Some u" "user_id (h u) = i"
  shows "setUser (h u) s = map_users (\<lambda>w. if user_id w = i then h (read_back w) else w) s"
proof -
  have "user_id u = i" using assms(2) by (rule getUser_id)
  then have "getUser s (user_id (h u)) = Some u" using assms(2,3) by simp
  then have "setUser (h u) s = map_users (\<lambda>w. if user_id w = user_id (h u) then h u else w) s"
    by (rule setUser_eq)
  also have "\<dots> = map_users (\<lambda>w. if user_id w = i then h (read_back w) else w) s"
    unfolding map_users_def using wf_unique_user[OF assms(1,2)] assms(3) by auto
  finally show ?thesis .
qed

lemma setUser_kill:
  assumes "wf_store s" "getUser s t = Some u"
  shows "setUser (u\<lparr>isAlive := False\<rparr>) s = map_users (kill t) s"
  using setUser_modify[OF assms, of "\<lambda>u. u\<lparr>isAlive := False\<rparr>"] getUser_id[OF assms(2)]
  by (simp add: kill_def[abs_def])

lemma fold_snapshot:
  assumes "wf_store s" "\<And>u. user_id (h u) = user_id u"
  shows "fold (\<lambda>v. setUser (h v)) (getUsersInRoom s i) s =
         map_users (\<lambda>w. if user_id w \<noteq> [] \<and> user_id w \<in> member_ids s i
                         then h (read_back w) else w) s"
proof -
  have d: "distinct (map user_id (users s))" using assms(1) by (simp add: wf_store_def)
  have k: "user_id (h (read_back x)) = user_id x" for x by (simp add: assms(2))
  show ?thesis
    unfolding fold_setUser getUsersInRoom_stored fold_map_list map_users_def
    using fold_put_filter[of user_id "\<lambda>x. h (read_back x)" "users s", OF k d]
    by simp
qed

lemma resetIsAwaiting_eq:
  assumes "wf_store s"
  shows "resetIsAwaiting s room =
         map_users (\<lambda>w. if user_id w \<noteq> [] \<and> user_id w \<in> member_ids s (room_id room)
                         then (read_back w)\<lparr>isAwaiting := False\<rparr> else w) s"
  unfolding resetIsAwaiting_def using assms by (rule fold_snapshot) simp

lemma resetVoteCount_eq:
  assumes "wf_store s"
  shows "resetVoteCount s room =
         map_users (\<lambda>w. if user_id w \<noteq> [] \<and> user_id w \<in> member_ids s (room_id room)
                         then (read_back w)\<lparr>voteCount := 0\<rparr> else w) s"
  unfolding resetVoteCount_def using assms by (rule fold_snapshot) simp

lemma resetVoteCount_setRoom:
  assumes "wf_store s" "userIds r \<noteq> []" "room_id r \<noteq> []"
  shows "resetVoteCount (setRoom r s) r = map_users (zero_votes (set (userIds r))) (setRoom r s)"
  using resetVoteCount_eq[OF wf_setRoom[OF assms(1)], of r r]
  by (simp add: member_ids_setRoom[OF assms(2,3)] zero_votes_def[abs_def])

lemma getRoom_final:
  "userIds r \<noteq> [] \<Longrightarrow> room_id r \<noteq> [] \<Longrightarrow>
   getRoom (setRoom r (map_users g s)) i =
     (if i = room_id r then Some (r\<lparr>userIds := rev (userIds r)\<rparr>) else getRoom s i)"
  by (simp add: getRoom_setRoom)

lemma getUser_final:
  "keeps_id g \<Longrightarrow> getUser (setRoom r (map_users g s)) i = map_option g (getUser s i)"
  by (simp add: getUser_map_users)

lemma getUsers_final:
  "keeps_id g \<Longrightarrow> getUsers (setRoom r (map_users g s)) = map g (getUsers s)"
  by (simp add: getUsers_map_users)

lemma getUsersInRoom_final:
  assumes "keeps_id g" "getRoom s i = Some r0" "room_id r = i" "userIds r = userIds r0"
  shows "getUsersInRoom (setRoom r (map_users g s)) i = map g (getUsersInRoom s i)"
proof -
  have "member_ids (setRoom r (map_users g s)) i = member_ids s i"
  proof (cases "userIds r = []")
    case True
    then show ?thesis by (simp add: setRoom_def)
  next
    case False
    then show ?thesis using assms(2-4) getRoom_nonempty[OF assms(2)]
      by (simp add: member_ids_def getRoom_setRoom)
  qed
  then show ?thesis
    unfolding getUsersInRoom_filter
    by (simp add: getUsers_map_users[OF assms(1)] filter_map comp_def keeps_id_user_id[OF assms(1)])
qed

subsection \<open>Leaders and the judge\<close>

lemma result_strings:
  "HUMAN_WIN \<noteq> WOLVES_WIN" "HUMAN_WIN \<noteq> CONTINUE_GAME" "WOLVES_WIN \<noteq> CONTINUE_GAME"
  by (simp_all add: HUMAN_WIN_def WOLVES_WIN_def CONTINUE_GAME_def)

lemma Math_max_None: "Math_max xs = None \<longleftrightarrow> xs = []"
  by (induction xs) (auto split: option.splits)

lemma Math_max_Some: "Math_max xs = Some m \<longleftrightarrow> xs \<noteq> [] \<and> m \<in> set xs \<and> (\<forall>x\<in>set xs. x \<le> m)"
proof (induction xs arbitrary: m)
  case Nil
  then show ?case by simp
next
  case (Cons a xs)
  show ?case
  proof (cases "Math_max xs")
    case None
    then have "xs = []" by (simp add: Math_max_None)
    then show ?thesis by auto
  next
    case (Some k)
    with Cons[of k] have k: "xs \<noteq> []" "k \<in> set xs" "\<forall>x\<in>set xs. x \<le> k" by auto
    from k Some show ?thesis by (auto simp: max_def intro: order.antisym)
  qed
qed

lemma getSuspects_filter:
  "getSuspects s room =
     map user_id (filter (\<lambda>u. \<forall>v\<in>set (getUsersInRoom s (room_id room)). voteCount v \<le> voteCount u)
       (getUsersInRoom s (room_id room)))"
proof -
  let ?us = "getUsersInRoom s (room_id room)"
  have "(Some (voteCount u) = Math_max (map voteCount ?us)) = (\<forall>v\<in>set ?us. voteCount v \<le> voteCount u)"
    if "u \<in> set ?us" for u
    using that Math_max_Some[of "map voteCount ?us" "voteCount u"] by (auto simp: eq_commute)
  then have "filter (\<lambda>v. Some (voteCount v) = Math_max (map voteCount ?us)) ?us =
             filter (\<lambda>u. \<forall>v\<in>set ?us. voteCount v \<le> voteCount u) ?us"
    by (intro filter_cong) auto
  then show ?thesis by (simp add: getSuspects_def Let_def)
qed

lemma getSuspects_map_users:
  assumes "keeps_id g" "\<And>u. voteCount (g u) = voteCount u"
  shows "getSuspects (map_users g s) room = getSuspects s room"
proof -
  have k: "\<And>u. user_id (g u) = user_id u" using assms(1) by (rule keeps_id_user_id)
  show ?thesis
    unfolding getSuspects_def getUsersInRoom_map_users[OF assms(1)]
    by (simp add: Let_def filter_map comp_def assms(2) k)
qed

lemma suspect_present:
  assumes "t \<in> set (getSuspects s room)"
  shows "\<exists>u. getUser s t = Some u"
proof -
  from assms obtain u where "u \<in> set (getUsersInRoom s (room_id room))" "user_id u = t"
    by (auto simp: getSuspects_def Let_def)
  then have "t \<in> user_id ` set (users s)" "t \<noteq> []"
    by (auto simp: getUsersInRoom_stored)
  then show ?thesis
    using getUser_None[of s t] by (cases "getUser s t") auto
qed

lemma suspects_members:
  assumes "getRoom s roomId = Some room" "t \<in> set (getSuspects s room)"
  shows "userIds room \<noteq> []"
proof -
  have "room_id room = roomId" using assms(1) by (rule getRoom_id)
  moreover from assms(2) obtain u where "u \<in> set (getUsersInRoom s (room_id room))"
    by (auto simp: getSuspects_def Let_def)
  ultimately show ?thesis using members_nonempty[OF assms(1)] by auto
qed

lemma judge_map_users:
  assumes "keeps_id g" "\<And>u. isAlive (g u) = isAlive u"
    and "\<And>u. role (g (read_back u)) = role (read_back u)"
  shows "judge (map_users g s) i = judge s i"
  unfolding judge_def getUsersInRoom_map_users[OF assms(1)]
  unfolding getUsersInRoom_stored
  by (simp add: Let_def filter_map comp_def assms(2,3) split: option.splits)

subsection \<open>The barrier handlers as one step\<close>

lemma barrier_state:
  assumes "wf_store s" "getRoom s roomId = Some room" "getUser s userId = Some user"
  shows "resetIsAwaiting (setUser (user\<lparr>isAwaiting := True\<rparr>) s) room =
         map_users (after_barrier (set (userIds room)) userId) s"
proof -
  let ?g1 = "\<lambda>w. if user_id w = userId then (read_back w)\<lparr>isAwaiting := True\<rparr> else w"
  have id: "user_id user = userId" using assms(3) by (rule getUser_id)
  have rid: "room_id room = roomId" "roomId \<noteq> []"
    using getRoom_id[OF assms(2)] getRoom_nonempty[OF assms(2)] by simp_all
  have 1: "setUser (user\<lparr>isAwaiting := True\<rparr>) s = map_users ?g1 s"
    using setUser_modify[OF assms(1,3), of "\<lambda>u. u\<lparr>isAwaiting := True\<rparr>"] id by simp
  have k1: "keeps_id ?g1" by (simp add: keeps_id_def)
  have wf1: "wf_store (map_users ?g1 s)" using k1 assms(1) by (rule wf_map_users)
  have m: "member_ids (map_users ?g1 s) (room_id room) = set (userIds room)"
    using assms(2) rid by (simp add: member_ids_Some)
  have "resetIsAwaiting (map_users ?g1 s) room =
        map_users (\<lambda>w. if user_id w \<noteq> [] \<and> user_id w \<in> set (userIds room)
                        then (read_back w)\<lparr>isAwaiting := False\<rparr> else w)
          (map_users ?g1 s)"
    using resetIsAwaiting_eq[OF wf1, of room] unfolding m .
  also have "\<dots> = map_users (after_barrier (set (userIds room)) userId) s"
    unfolding map_users_comp by (rule arg_cong[where f="\<lambda>g. map_users g s"]) (auto simp: after_barrier_def)
  finally show ?thesis using 1 by simp
qed

lemma awaitVoting_barrier:
  assumes "wf_store s" "getRoom s roomId = Some room" "getUser s userId = Some user"
    and "checkAwaitStatus (setUser (user\<lparr>isAwaiting := True\<rparr>) s) room"
  shows "awaitVoting roomId userId s =
         awaitVoting_resolve (map_users (after_barrier (set (userIds room)) userId) s) room
           (getSuspects s room)"
  using assms(2-4)
  by (simp add: awaitVoting_def Let_def barrier_state[OF assms(1-3)] getSuspects_map_users)

lemma awaitNight_barrier:
  assumes "wf_store s" "getRoom s roomId = Some room" "getUser s userId = Some user"
    and "checkAwaitStatus (setUser (user\<lparr>isAwaiting := True\<rparr>) s) room"
  shows "awaitNight roomId userId s =
         awaitNight_resolve roomId (map_users (after_barrier (set (userIds room)) userId) s) room
           (getSuspects s room)"
  using assms(2-4)
  by (simp add: awaitNight_def Let_def barrier_state[OF assms(1-3)] getSuspects_map_users)

lemma awaitVoting_tie_first:
  assumes "wf_store s" "getRoom s roomId = Some room" "getUser s userId = Some user"
    and "checkAwaitStatus (setUser (user\<lparr>isAwaiting := True\<rparr>) s) room"
    and "length (getSuspects s room) \<noteq> 1" "\<not> isFinalVoting room" "userIds room \<noteq> []"
  shows "awaitVoting roomId userId s =
         (setRoom (room\<lparr>isFinalVoting := True, phase := VotingResult\<rparr>)
            (map_users (zero_votes (set (userIds room)) \<circ> after_barrier (set (userIds room)) userId) s),
          [Broadcast ''awaitVoting''])"
  unfolding awaitVoting_barrier[OF assms(1-4)]
  using assms(5,6,7) getRoom_id[OF assms(2)] getRoom_nonempty[OF assms(2)]
  by (simp add: awaitVoting_resolve_def Let_def resetVoteCount_setRoom[OF wf_after_barrier[OF assms(1)]]
      setRoom_map_users setRoom_setRoom map_users_comp)

lemma awaitVoting_tie_final:
  assumes "wf_store s" "getRoom s roomId = Some room" "getUser s userId = Some user"
    and "checkAwaitStatus (setUser (user\<lparr>isAwaiting := True\<rparr>) s) room"
    and "length (getSuspects s room) \<noteq> 1" "isFinalVoting room" "userIds room \<noteq> []"
  shows "awaitVoting roomId userId s =
         (setRoom (room\<lparr>isFinalVoting := False, phase := VotingResult\<rparr>)
            (map_users (zero_votes (set (userIds room)) \<circ> after_barrier (set (userIds room)) userId) s),
          [Broadcast ''awaitVoting''])"
  unfolding awaitVoting_barrier[OF assms(1-4)]
  using assms(5,6,7) getRoom_id[OF assms(2)] getRoom_nonempty[OF assms(2)]
  by (simp add: awaitVoting_resolve_def Let_def resetVoteCount_setRoom[OF wf_after_barrier[OF assms(1)]]
      setRoom_map_users setRoom_setRoom map_users_comp)

lemma awaitVoting_unique:
  assumes "wf_store s" "getRoom s roomId = Some room" "getUser s userId = Some user"
    and "checkAwaitStatus (setUser (user\<lparr>isAwaiting := True\<rparr>) s) room"
    and "getSuspects s room = [t]"
  shows "awaitVoting roomId userId s =
         (setRoom (room\<lparr>lastLynched := Some t, isFinalVoting := False, phase := VotingResult\<rparr>)
            (map_users (zero_votes (set (userIds room)) \<circ> kill t \<circ>
                        after_barrier (set (userIds room)) userId) s),
          [Broadcast ''awaitVoting''])"
proof -
  let ?M = "set (userIds room)"
  let ?s2 = "map_users (after_barrier ?M userId) s"
  obtain u where u: "getUser s t = Some u"
    using suspect_present[of t s room] assms(5) by auto
  have u2: "getUser ?s2 t = Some (after_barrier ?M userId u)"
    using u by (simp add: getUser_map_users)
  have wf2: "wf_store ?s2" using assms(1) by (rule wf_after_barrier)
  have k: "setUser ((after_barrier ?M userId u)\<lparr>isAlive := False\<rparr>) ?s2 = map_users (kill t) ?s2"
    using wf2 u2 by (rule setUser_kill)
  have "wf_store (map_users (kill t) ?s2)" by (rule wf_map_users[OF keeps_id_kill wf2])
  then have wf3: "wf_store (map_users (kill t \<circ> after_barrier ?M userId) s)"
    by (simp add: map_users_comp)
  have ne: "userIds room \<noteq> []"
    using suspects_members[OF assms(2), of t] assms(5) by simp
  show ?thesis
    unfolding awaitVoting_barrier[OF assms(1-4)] assms(5)
    using ne getRoom_id[OF assms(2)] getRoom_nonempty[OF assms(2)]
    by (simp add: awaitVoting_resolve_def Let_def u2 k resetVoteCount_setRoom[OF wf3]
        setRoom_map_users setRoom_setRoom map_users_comp comp_assoc)
qed

lemma awaitNight_protected:
  assumes "wf_store s" "getRoom s roomId = Some room" "getUser s userId = Some user"
    and "checkAwaitStatus (setUser (user\<lparr>isAwaiting := True\<rparr>) s) room"
    and "getSuspects s room = [t]" "lastHunted room = Some t"
  shows "awaitNight roomId userId s =
         (if judge s roomId = HUMAN_WIN \<or> judge s roomId = WOLVES_WIN then
            (map_users (after_barrier (set (userIds room)) userId) s, [Broadcast ''gameSet''])
          else
            (setRoom (room\<lparr>lastHunted := None, days := days room + 1, phase := Discussion\<rparr>)
               (map_users (zero_votes (set (userIds room)) \<circ>
                           after_barrier (set (userIds room)) userId) s),
             [Broadcast ''awaitNight'']))"
proof -
  let ?M = "set (userIds room)"
  let ?s2 = "map_users (after_barrier ?M userId) s"
  obtain u where u: "getUser s t = Some u"
    using suspect_present[of t s room] assms(5) by auto
  have u2: "getUser ?s2 t = Some (after_barrier ?M userId u)"
    using u by (simp add: getUser_map_users)
  have t: "user_id u = t" using u by (rule getUser_id)
  have wf2: "wf_store ?s2" using assms(1) by (rule wf_after_barrier)
  have m2: "member_ids ?s2 (room_id room) = ?M"
    using assms(2) getRoom_id[OF assms(2)] by (simp add: member_ids_Some)
  have r: "resetVoteCount ?s2 room = map_users (zero_votes ?M) ?s2"
    using resetVoteCount_eq[OF wf2, of room] unfolding m2 by (simp add: zero_votes_def[abs_def])
  have j: "judge ?s2 roomId = judge s roomId"
    by (rule judge_map_users) simp_all
  show ?thesis
    unfolding awaitNight_barrier[OF assms(1-4)] assms(5)
    by (simp add: awaitNight_resolve_def Let_def u2 t assms(6) j r setRoom_map_users map_users_comp)
qed

subsection \<open>Role assignment\<close>



lemma assignRoles_fst_None:
  "getUser s a = None \<Longrightarrow>
   fst (assignRoles ch i (a # ids) s) = fst (assignRoles ch (Suc i) ids s)"
  by (simp split: prod.splits)

lemma assignRoles_fst_Some:
  "getUser s a = Some user \<Longrightarrow>
   fst (assignRoles ch i (a # ids) s) =
   fst (assignRoles ch (Suc i) ids (setUser (user\<lparr>role := at_index ch i\<rparr>) s))"
  by simp





subsection \<open>Every handler keeps ids unique\<close>

lemma wf_fold_setUser: "wf_store s \<Longrightarrow> wf_store (fold (\<lambda>v. setUser (f v)) vs s)"
  by (induction vs arbitrary: s) (auto intro: wf_setUser)

lemma wf_resetIsAwaiting: "wf_store s \<Longrightarrow> wf_store (resetIsAwaiting s room)"
  unfolding resetIsAwaiting_def by (rule wf_fold_setUser)

lemma wf_resetVoteCount: "wf_store s \<Longrightarrow> wf_store (resetVoteCount s room)"
  unfolding resetVoteCount_def by (rule wf_fold_setUser)

lemma wf_assignRoles: "wf_store s \<Longrightarrow> wf_store (fst (assignRoles ch i ids s))"
proof (induction ids arbitrary: i s)
  case Nil
  then show ?case by simp
next
  case (Cons a ids)
  show ?case
  proof (cases "getUser s a")
    case None
    show ?thesis unfolding assignRoles_fst_None[OF None] using Cons.prems by (rule Cons.IH)
  next
    case (Some user)
    show ?thesis unfolding assignRoles_fst_Some[OF Some]
      using Cons.prems by (intro Cons.IH wf_setUser)
  qed
qed

lemmas wf_intros = wf_setUser wf_setRoom wf_resetIsAwaiting wf_resetVoteCount wf_assignRoles

lemma wf_awaitVoting_resolve:
  "wf_store s \<Longrightarrow> wf_store (fst (awaitVoting_resolve s room suspects))"
  by (auto simp: awaitVoting_resolve_def Let_def split: option.splits intro!: wf_intros)

lemma wf_awaitNight_resolve:
  "wf_store s \<Longrightarrow> wf_store (fst (awaitNight_resolve roomId s room suspects))"
  by (auto simp: awaitNight_resolve_def Let_def split: option.splits intro!: wf_intros)

lemma wf_choice: "wf_store s \<Longrightarrow> wf_store (fst (choice rnd roomId s))"
proof (cases "getRoom s roomId")
  case None
  assume "wf_store s"
  with None show ?thesis by (simp add: choice_def)
next
  case (Some room)
  assume "wf_store s"
  then have "wf_store (fst (assignRoles ch 0 (userIds room) s))" for ch
    by (rule wf_assignRoles)
  then show ?thesis using Some
    by (auto simp: choice_def Let_def split: prod.splits intro!: wf_setRoom) (metis fst_conv)
qed

lemma wf_empty: "wf_store \<lparr>rooms = [], users = []\<rparr>"
  by (simp add: wf_store_def)

lemma handle_wf: "wf_store s \<Longrightarrow> wf_store (fst (handle e s))"
proof (cases e)
  case (Choice rnd roomId)
  assume "wf_store s"
  then show ?thesis using Choice by (simp add: wf_choice)
qed (auto simp: create_def join_def getRoom_handler_def getUser_handler_def
        leave_def vote_def murder_def hunt_def awaitStart_def awaitDiscussion_def
        awaitVoting_def awaitVotingResult_def awaitNight_def Let_def
        split: option.splits
        intro!: wf_intros wf_awaitVoting_resolve wf_awaitNight_resolve)

subsection \<open>Every stored room has a member\<close>

lemma has_members_setRoom: "has_members s \<Longrightarrow> has_members (setRoom x s)"
  by (auto simp: has_members_def setRoom_def put_def split: if_splits)

lemma has_members_rooms: "rooms s' = rooms s \<Longrightarrow> has_members s \<Longrightarrow> has_members s'"
  by (simp add: has_members_def)

lemma rooms_setUser [simp]: "rooms (setUser u s) = rooms s"
  by (simp add: setUser_def)

lemma rooms_fold_setUser: "rooms (fold (\<lambda>v. setUser (f v)) vs s) = rooms s"
  by (simp add: fold_setUser)

lemma rooms_resetIsAwaiting [simp]: "rooms (resetIsAwaiting s room) = rooms s"
  by (simp add: resetIsAwaiting_def rooms_fold_setUser)

lemma rooms_resetVoteCount [simp]: "rooms (resetVoteCount s room) = rooms s"
  by (simp add: resetVoteCount_def rooms_fold_setUser)

lemma rooms_assignRoles: "rooms (fst (assignRoles ch i ids s)) = rooms s"
proof (induction ids arbitrary: i s)
  case Nil
  then show ?case by simp
next
  case (Cons a ids)
  show ?case
  proof (cases "getUser s a")
    case None
    show ?thesis unfolding assignRoles_fst_None[OF None] by (rule Cons.IH)
  next
    case (Some user)
    show ?thesis unfolding assignRoles_fst_Some[OF Some] by (simp add: Cons.IH)
  qed
qed

lemma has_members_setUser: "has_members s \<Longrightarrow> has_members (setUser u s)"
  by (rule has_members_rooms) simp

lemma has_members_resetIsAwaiting: "has_members s \<Longrightarrow> has_members (resetIsAwaiting s room)"
  by (rule has_members_rooms) simp

lemma has_members_resetVoteCount: "has_members s \<Longrightarrow> has_members (resetVoteCount s room)"
  by (rule has_members_rooms) simp

lemma has_members_assignRoles: "has_members s \<Longrightarrow> has_members (fst (assignRoles ch i ids s))"
  by (rule has_members_rooms) (rule rooms_assignRoles)

lemmas has_members_intros = has_members_setUser has_members_setRoom has_members_resetIsAwaiting
  has_members_resetVoteCount has_members_assignRoles

lemma has_members_awaitVoting_resolve:
  "has_members s \<Longrightarrow> has_members (fst (awaitVoting_resolve s room suspects))"
  by (auto simp: awaitVoting_resolve_def Let_def split: option.splits intro!: has_members_intros)

lemma has_members_awaitNight_resolve:
  "has_members s \<Longrightarrow> has_members (fst (awaitNight_resolve roomId s room suspects))"
  by (auto simp: awaitNight_resolve_def Let_def split: option.splits intro!: has_members_intros)

lemma has_members_choice: "has_members s \<Longrightarrow> has_members (fst (choice rnd roomId s))"
proof (cases "getRoom s roomId")
  case None
  assume "has_members s"
  with None show ?thesis by (simp add: choice_def)
next
  case (Some room)
  assume "has_members s"
  then have "has_members (fst (assignRoles ch 0 (userIds room) s))" for ch
    by (rule has_members_assignRoles)
  then show ?thesis using Some
    by (auto simp: choice_def Let_def split: prod.splits intro!: has_members_setRoom) (metis fst_conv)
qed

lemma has_members_empty: "has_members \<lparr>rooms = [], users = []\<rparr>"
  by (simp add: has_members_def)

lemma handle_members: "has_members s \<Longrightarrow> has_members (fst (handle e s))"
proof (cases e)
  case (Choice rnd roomId)
  assume "has_members s"
  then show ?thesis using Choice by (simp add: has_members_choice)
qed (auto simp: create_def join_def getRoom_handler_def getUser_handler_def
        leave_def vote_def murder_def hunt_def awaitStart_def awaitDiscussion_def
        awaitVoting_def awaitVotingResult_def awaitNight_def Let_def
        split: option.splits
        intro!: has_members_intros has_members_awaitVoting_resolve has_members_awaitNight_resolve)

lemma has_members_stored: "has_members s \<Longrightarrow> getRoom s i = Some r \<Longrightarrow> userIds r \<noteq> []"
  using find_Some_key[of room_id i "rooms s" r] by (auto simp: has_members_def getRoom_find)

section \<open>The claims\<close>

subsection \<open>What the helpers read, in terms of the stored records\<close>

lemma checkAwaitStatus_stored:
  "checkAwaitStatus s room \<longleftrightarrow>
     (\<forall>w\<in>set (users s). user_id w \<noteq> [] \<and> user_id w \<in> member_ids s (room_id room) \<and> isAlive w
        \<longrightarrow> isAwaiting w)"
proof -
  have "checkAwaitStatus s room \<longleftrightarrow>
      (\<forall>u\<in>set (getUsersInRoom s (room_id room)). isAlive u \<longrightarrow> isAwaiting u)"
    using length_filter_eq_iff[of isAwaiting "filter isAlive (getUsersInRoom s (room_id room))"]
    by (auto simp: checkAwaitStatus_def Let_def)
  then show ?thesis unfolding getUsersInRoom_stored by auto
qed

lemma getSuspects_stored:
  "getSuspects s room =
     map user_id
       (filter (\<lambda>u. (user_id u \<noteq> [] \<and> user_id u \<in> member_ids s (room_id room)) \<and>
                     (\<forall>v\<in>set (users s).
                        user_id v \<noteq> [] \<and> user_id v \<in> member_ids s (room_id room)
                          \<longrightarrow> voteCount v \<le> voteCount u))
          (users s))"
proof -
  have "filter (\<lambda>x. user_id x \<noteq> [] \<and> user_id x \<in> member_ids s (room_id room) \<and>
                  (\<forall>v. v \<in> set (users s) \<and> user_id v \<noteq> [] \<and>
                       user_id v \<in> member_ids s (room_id room) \<longrightarrow> voteCount v \<le> voteCount x))
          (users s) =
        filter (\<lambda>u. (user_id u \<noteq> [] \<and> user_id u \<in> member_ids s (room_id room)) \<and>
                  (\<forall>v\<in>set (users s). user_id v \<noteq> [] \<and>
                       user_id v \<in> member_ids s (room_id room) \<longrightarrow> voteCount v \<le> voteCount u))
          (users s)"
    by (rule filter_cong) auto
  then show ?thesis
    unfolding getSuspects_filter getUsersInRoom_stored
    by (simp add: filter_map comp_def)
qed

text \<open>
  Claim C1. Let the room be stored with wf ids. A living wolf of the room is a stored user
  whose id is in the room's \<open>userIds\<close>, who is alive and whose role reads back as
  WereWolf; a living human of the room is the same with any other role. Users of other
  rooms do not count. \<^verbatim>\<open>judge\<close> returns human-win exactly when the room has no living
  wolf; wolf-win exactly when it has one and its living wolves are at least as many as
  its living humans; and continue exactly when it has one and they are fewer.
\<close>

theorem judge_three_way:
  assumes "wf_store s" and "getRoom s roomId = Some room"
  shows "(judge s roomId = HUMAN_WIN \<longleftrightarrow>
            card {w \<in> set (users s). (user_id w \<noteq> [] \<and> user_id w \<in> set (userIds room)) \<and>
                    isAlive w \<and> role (read_back w) = Some WereWolf} = 0) \<and>
         (judge s roomId = WOLVES_WIN \<longleftrightarrow>
            card {w \<in> set (users s). (user_id w \<noteq> [] \<and> user_id w \<in> set (userIds room)) \<and>
                    isAlive w \<and> role (read_back w) = Some WereWolf} \<noteq> 0 \<and>
            card {w \<in> set (users s). (user_id w \<noteq> [] \<and> user_id w \<in> set (userIds room)) \<and>
                    isAlive w \<and> role (read_back w) \<noteq> Some WereWolf}
              \<le> card {w \<in> set (users s). (user_id w \<noteq> [] \<and> user_id w \<in> set (userIds room)) \<and>
                    isAlive w \<and> role (read_back w) = Some WereWolf}) \<and>
         (judge s roomId = CONTINUE_GAME \<longleftrightarrow>
            card {w \<in> set (users s). (user_id w \<noteq> [] \<and> user_id w \<in> set (userIds room)) \<and>
                    isAlive w \<and> role (read_back w) = Some WereWolf} \<noteq> 0 \<and>
            card {w \<in> set (users s). (user_id w \<noteq> [] \<and> user_id w \<in> set (userIds room)) \<and>
                    isAlive w \<and> role (read_back w) = Some WereWolf}
              < card {w \<in> set (users s). (user_id w \<noteq> [] \<and> user_id w \<in> set (userIds room)) \<and>
                    isAlive w \<and> role (read_back w) \<noteq> Some WereWolf})"
proof -
  let ?M = "\<lambda>w. user_id w \<noteq> [] \<and> user_id w \<in> set (userIds room)"
  have d: "distinct (users s)"
    using assms(1) by (auto simp: wf_store_def intro: distinct_key)
  have us: "getUsersInRoom s roomId = map read_back (filter ?M (users s))"
    unfolding getUsersInRoom_stored member_ids_Some[OF assms(2)] ..
  have len: "length (filter P (getUsersInRoom s roomId)) =
             card {w \<in> set (users s). ?M w \<and> P (read_back w)}" for P
    unfolding us card_filter_set[OF d] by (simp add: filter_map comp_def)
  have j: "judge s roomId =
        (if length (filter (\<lambda>v. isAlive v \<and> role v = Some WereWolf) (getUsersInRoom s roomId)) = 0
         then HUMAN_WIN
         else if length (filter (\<lambda>v. isAlive v \<and> role v \<noteq> Some WereWolf) (getUsersInRoom s roomId))
                 \<le> length (filter (\<lambda>v. isAlive v \<and> role v = Some WereWolf) (getUsersInRoom s roomId))
         then WOLVES_WIN else CONTINUE_GAME)"
    using assms(2) by (simp add: judge_def Let_def)
  show ?thesis
    unfolding j len using result_strings by (auto simp: isAlive_read_back)
qed

text \<open>
  In room \<open>r\<close> of \<open>ex_crowd\<close> one wolf faces one villager, a wolf win, though the store
  holds two more living villagers. In room \<open>r\<close> of \<open>ex_pack\<close> one wolf faces three
  villagers and the game goes on, though the store holds three more living wolves.
\<close>

theorem judge_three_way_witness:
  "wf_store ex_crowd \<and> getRoom ex_crowd ''r'' = Some (ex_room VotingResult False None) \<and>
   judge ex_crowd ''r'' = WOLVES_WIN \<and>
   card {w \<in> set (users ex_crowd).
           (user_id w \<noteq> [] \<and> user_id w \<in> set (userIds (ex_room VotingResult False None))) \<and>
           isAlive w \<and> role (read_back w) \<noteq> Some WereWolf}
     \<le> card {w \<in> set (users ex_crowd).
           (user_id w \<noteq> [] \<and> user_id w \<in> set (userIds (ex_room VotingResult False None))) \<and>
           isAlive w \<and> role (read_back w) = Some WereWolf} \<and>
   length (filter (\<lambda>w. isAlive w \<and> role w \<noteq> Some WereWolf) (users ex_crowd)) = 3 \<and>
   wf_store ex_pack \<and> judge ex_pack ''r'' = CONTINUE_GAME \<and>
   card {w \<in> set (users ex_pack).
           (user_id w \<noteq> [] \<and> user_id w \<in> set [''a'', ''b'', ''c'', ''d'']) \<and>
           isAlive w \<and> role (read_back w) = Some WereWolf}
     < card {w \<in> set (users ex_pack).
           (user_id w \<noteq> [] \<and> user_id w \<in> set [''a'', ''b'', ''c'', ''d'']) \<and>
           isAlive w \<and> role (read_back w) \<noteq> Some WereWolf} \<and>
   length (filter (\<lambda>w. isAlive w \<and> role w = Some WereWolf) (users ex_pack)) = 4"
proof -
  have a1: "wf_store ex_crowd" by code_simp
  have a2: "getRoom ex_crowd ''r'' = Some (ex_room VotingResult False None)" by code_simp
  have a3: "judge ex_crowd ''r'' = WOLVES_WIN" by code_simp
  have a4: "length (filter (\<lambda>w. isAlive w \<and> role w \<noteq> Some WereWolf) (users ex_crowd)) = 3"
    by code_simp
  have b1: "wf_store ex_pack" by code_simp
  have b2: "getRoom ex_pack ''r'' =
            Some ((ex_room VotingResult False None)\<lparr>userIds := [''a'', ''b'', ''c'', ''d'']\<rparr>)"
    by code_simp
  have b3: "judge ex_pack ''r'' = CONTINUE_GAME" by code_simp
  have b4: "length (filter (\<lambda>w. isAlive w \<and> role w = Some WereWolf) (users ex_pack)) = 4"
    by code_simp
  show ?thesis
    using a1 a2 a3 a4 b1 b3 b4 judge_three_way[OF a1 a2] judge_three_way[OF b1 b2] by simp
qed

text \<open>
  Claim C5. Let \<open>stored\<close> be what the store holds under the room's id. A living member is
  a stored user whose id is in \<open>userIds stored\<close> and who is alive. \<^verbatim>\<open>checkAwaitStatus\<close> is
  true exactly when every living member has its awaiting flag set, whatever the flags of
  users of other rooms; it is true when the room has no living member; and setting the
  flags of dead users to anything leaves the result as it was.
\<close>

theorem checkAwaitStatus_iff:
  "(getRoom s (room_id room) = Some stored \<longrightarrow>
      (checkAwaitStatus s room \<longleftrightarrow>
        (\<forall>w\<in>set (users s). user_id w \<noteq> [] \<and> user_id w \<in> set (userIds stored) \<and> isAlive w
           \<longrightarrow> isAwaiting w))) \<and>
   (getRoom s (room_id room) = Some stored \<and>
    (\<forall>w\<in>set (users s). user_id w \<noteq> [] \<and> user_id w \<in> set (userIds stored) \<longrightarrow> \<not> isAlive w)
      \<longrightarrow> checkAwaitStatus s room) \<and>
   checkAwaitStatus
     (s\<lparr>users := map (\<lambda>u. if isAlive u then u else u\<lparr>isAwaiting := f u\<rparr>) (users s)\<rparr>) room
     = checkAwaitStatus s room"
proof -
  let ?g = "\<lambda>u. if isAlive u then u else u\<lparr>isAwaiting := f u\<rparr>"
  let ?s' = "s\<lparr>users := map ?g (users s)\<rparr>"
  have 1: "checkAwaitStatus s room \<longleftrightarrow>
        (\<forall>w\<in>set (users s). user_id w \<noteq> [] \<and> user_id w \<in> set (userIds stored) \<and> isAlive w
           \<longrightarrow> isAwaiting w)" if "getRoom s (room_id room) = Some stored"
    unfolding checkAwaitStatus_stored member_ids_Some[OF that] ..
  have m: "member_ids ?s' (room_id room) = member_ids s (room_id room)"
    by (simp add: member_ids_def getRoom_def)
  have 3: "checkAwaitStatus ?s' room = checkAwaitStatus s room"
    unfolding checkAwaitStatus_stored m by auto
  show ?thesis using 1 3 by blast
qed

text \<open>
  In room \<open>r\<close> of \<open>ex_crowd\<close> the two living members are ready; the dead member and the
  two users of room \<open>q\<close> are not. In \<open>ex_tie\<close> the living member \<open>a\<close> is not ready.
\<close>

theorem checkAwaitStatus_iff_witness:
  "getRoom ex_crowd (room_id (ex_room VotingResult False None))
     = Some (ex_room VotingResult False None) \<and>
   list_all (\<lambda>w. user_id w \<noteq> [] \<and> user_id w \<in> set (userIds (ex_room VotingResult False None)) \<and>
                 isAlive w \<longrightarrow> isAwaiting w) (users ex_crowd) \<and>
   checkAwaitStatus ex_crowd (ex_room VotingResult False None) \<and>
   \<not> list_all (\<lambda>w. isAlive w \<longrightarrow> isAwaiting w) (users ex_crowd) \<and>
   getRoom ex_tie (room_id (ex_room Voting False None)) = Some (ex_room Voting False None) \<and>
   \<not> list_all (\<lambda>w. user_id w \<noteq> [] \<and> user_id w \<in> set (userIds (ex_room Voting False None)) \<and>
                 isAlive w \<longrightarrow> isAwaiting w) (users ex_tie) \<and>
   \<not> checkAwaitStatus ex_tie (ex_room Voting False None)"
proof -
  have r1: "getRoom ex_crowd (room_id (ex_room VotingResult False None))
     = Some (ex_room VotingResult False None)" by code_simp
  have h: "list_all (\<lambda>w. user_id w \<noteq> [] \<and>
        user_id w \<in> set (userIds (ex_room VotingResult False None)) \<and>
        isAlive w \<longrightarrow> isAwaiting w) (users ex_crowd)"
    by code_simp
  have o: "\<not> list_all (\<lambda>w. isAlive w \<longrightarrow> isAwaiting w) (users ex_crowd)" by code_simp
  have r2: "getRoom ex_tie (room_id (ex_room Voting False None)) = Some (ex_room Voting False None)"
    by code_simp
  have n: "\<not> list_all (\<lambda>w. user_id w \<noteq> [] \<and>
        user_id w \<in> set (userIds (ex_room Voting False None)) \<and>
        isAlive w \<longrightarrow> isAwaiting w) (users ex_tie)"
    by code_simp
  show ?thesis
    using r1 h o r2 n
      checkAwaitStatus_iff[of ex_crowd "ex_room VotingResult False None"
        "ex_room VotingResult False None"]
      checkAwaitStatus_iff[of ex_tie "ex_room Voting False None" "ex_room Voting False None"]
    unfolding list_all_iff by blast
qed

text \<open>
  Claim C6. Let \<open>stored\<close> be what the store holds under the room's id. A member is a
  stored user whose id is in \<open>userIds stored\<close>, alive or not. \<^verbatim>\<open>getSuspects\<close> returns the
  ids of exactly the members whose vote count no member exceeds, in the order of the
  store; the votes of users of other rooms and the isAlive flags play no part. The ids
  returned are pairwise distinct; when one member is strictly ahead of all other members
  the result is that member alone; when no stored user is a member, or the room is not
  stored, the result is empty.
\<close>

theorem getSuspects_leaders:
  "(getRoom s (room_id room) = Some stored \<longrightarrow>
      getSuspects s room =
        map user_id
          (filter (\<lambda>u. (user_id u \<noteq> [] \<and> user_id u \<in> set (userIds stored)) \<and>
                        (\<forall>v\<in>set (users s). user_id v \<noteq> [] \<and> user_id v \<in> set (userIds stored)
                           \<longrightarrow> voteCount v \<le> voteCount u))
             (users s))) \<and>
   getSuspects (s\<lparr>users := map (\<lambda>u. u\<lparr>isAlive := f u\<rparr>) (users s)\<rparr>) room = getSuspects s room \<and>
   (wf_store s \<longrightarrow> distinct (getSuspects s room)) \<and>
   (wf_store s \<and> getRoom s (room_id room) = Some stored \<and> u \<in> set (users s) \<and>
    user_id u \<noteq> [] \<and> user_id u \<in> set (userIds stored) \<and>
    (\<forall>v\<in>set (users s). user_id v \<noteq> [] \<and> user_id v \<in> set (userIds stored) \<and> v \<noteq> u
       \<longrightarrow> voteCount v < voteCount u)
      \<longrightarrow> getSuspects s room = [user_id u]) \<and>
   (getRoom s (room_id room) = Some stored \<and>
    (\<forall>w\<in>set (users s). \<not> (user_id w \<noteq> [] \<and> user_id w \<in> set (userIds stored)))
      \<longrightarrow> getSuspects s room = []) \<and>
   (getRoom s (room_id room) = None \<longrightarrow> getSuspects s room = [])"
proof -
  let ?M = "\<lambda>u. user_id u \<noteq> [] \<and> user_id u \<in> set (userIds stored)"
  let ?top = "\<lambda>u. \<forall>v\<in>set (users s). ?M v \<longrightarrow> voteCount v \<le> voteCount u"
  have 1: "getSuspects s room = map user_id (filter (\<lambda>u. ?M u \<and> ?top u) (users s))"
    if "getRoom s (room_id room) = Some stored"
    unfolding getSuspects_stored member_ids_Some[OF that] ..
  let ?s' = "s\<lparr>users := map (\<lambda>u. u\<lparr>isAlive := f u\<rparr>) (users s)\<rparr>"
  have m: "member_ids ?s' (room_id room) = member_ids s (room_id room)"
    by (simp add: member_ids_def getRoom_def)
  have 2: "getSuspects ?s' room = getSuspects s room"
    unfolding getSuspects_stored m by (simp add: filter_map comp_def)
  have 3: "distinct (getSuspects s room)" if "wf_store s"
    using getUsersInRoom_ids_distinct[OF that, of "room_id room"]
    unfolding getSuspects_filter by (rule distinct_map_filter)
  have 4: "getSuspects s room = [user_id u]"
    if "wf_store s" "getRoom s (room_id room) = Some stored" "u \<in> set (users s)" "?M u"
      "\<forall>v\<in>set (users s). ?M v \<and> v \<noteq> u \<longrightarrow> voteCount v < voteCount u"
  proof -
    have d: "distinct (users s)"
      using that(1) by (auto simp: wf_store_def intro: distinct_key)
    have "filter (\<lambda>u. ?M u \<and> ?top u) (users s) = [u]"
    proof (rule filter_unique[OF d that(3)])
      fix x assume x: "x \<in> set (users s)"
      show "(?M x \<and> ?top x) \<longleftrightarrow> x = u"
      proof
        assume a: "?M x \<and> ?top x"
        show "x = u"
        proof (rule ccontr)
          assume "x \<noteq> u"
          then have "voteCount x < voteCount u" using that(5) x a by blast
          moreover have "voteCount u \<le> voteCount x" using a that(3,4) by blast
          ultimately show False by simp
        qed
      next
        assume "x = u"
        then show "?M x \<and> ?top x" using that(4,5) by (metis order_less_imp_le order_refl)
      qed
    qed
    then show ?thesis unfolding 1[OF that(2)] by simp
  qed
  have 5: "getSuspects s room = []"
    if "getRoom s (room_id room) = Some stored" "\<forall>w\<in>set (users s). \<not> ?M w"
  proof -
    have "filter (\<lambda>u. ?M u \<and> ?top u) (users s) = []"
      unfolding filter_empty_conv using that(2) by blast
    then show ?thesis unfolding 1[OF that(1)] by simp
  qed
  have 6: "getSuspects s room = []" if "getRoom s (room_id room) = None"
    using that by (simp add: getSuspects_def getUsersInRoom_def)
  show ?thesis using 1 2 3 4 5 6 by blast
qed

text \<open>
  In room \<open>r\<close> of \<open>ex_crowd\<close> member \<open>b\<close> has two votes, \<open>c\<close> one and \<open>a\<close> none; \<open>x\<close> of
  room \<open>q\<close> has nine.
\<close>

theorem getSuspects_leaders_witness:
  "wf_store ex_crowd \<and>
   getRoom ex_crowd (room_id (ex_room VotingResult False None))
     = Some (ex_room VotingResult False None) \<and>
   ex_user ''b'' Villager True 2 True \<in> set (users ex_crowd) \<and>
   user_id (ex_user ''b'' Villager True 2 True) \<noteq> [] \<and>
   user_id (ex_user ''b'' Villager True 2 True)
     \<in> set (userIds (ex_room VotingResult False None)) \<and>
   list_all (\<lambda>v. user_id v \<noteq> [] \<and> user_id v \<in> set (userIds (ex_room VotingResult False None)) \<and>
                 v \<noteq> ex_user ''b'' Villager True 2 True \<longrightarrow>
                 voteCount v < voteCount (ex_user ''b'' Villager True 2 True))
     (users ex_crowd) \<and>
   \<not> list_all (\<lambda>v. voteCount v \<le> voteCount (ex_user ''b'' Villager True 2 True)) (users ex_crowd) \<and>
   getSuspects ex_crowd (ex_room VotingResult False None) = [''b'']"
proof -
  have h1: "wf_store ex_crowd" by code_simp
  have h2: "getRoom ex_crowd (room_id (ex_room VotingResult False None))
     = Some (ex_room VotingResult False None)" by code_simp
  have h3: "ex_user ''b'' Villager True 2 True \<in> set (users ex_crowd)" by code_simp
  have h4: "user_id (ex_user ''b'' Villager True 2 True) \<noteq> []" by code_simp
  have h5: "user_id (ex_user ''b'' Villager True 2 True)
     \<in> set (userIds (ex_room VotingResult False None))" by code_simp
  have h6: "list_all (\<lambda>v. user_id v \<noteq> [] \<and>
        user_id v \<in> set (userIds (ex_room VotingResult False None)) \<and>
        v \<noteq> ex_user ''b'' Villager True 2 True \<longrightarrow>
        voteCount v < voteCount (ex_user ''b'' Villager True 2 True))
     (users ex_crowd)" by code_simp
  have o: "\<not> list_all (\<lambda>v. voteCount v \<le> voteCount (ex_user ''b'' Villager True 2 True))
     (users ex_crowd)" by code_simp
  have i: "user_id (ex_user ''b'' Villager True 2 True) = ''b''" by (simp add: ex_user_def)
  have "getSuspects ex_crowd (ex_room VotingResult False None) =
        [user_id (ex_user ''b'' Villager True 2 True)]"
    using h1 h2 h3 h4 h5 h6
      getSuspects_leaders[of ex_crowd "ex_room VotingResult False None"
        "ex_room VotingResult False None" _ "ex_user ''b'' Villager True 2 True"]
    unfolding list_all_iff by blast
  then show ?thesis using h1 h2 h3 h4 h5 h6 o unfolding i by blast
qed

text \<open>
  Claim C9. Decoding the string of a role gives that role, and decoding the string of a
  phase gives that phase; on any other string the decoder throws, with the message the
  source builds.
\<close>

theorem decoders_strict:
  "getRoleByString (ROLE_string r) = Inr r \<and>
   getPhaseByString (PHASE_string p) = Inr p \<and>
   (v \<notin> range ROLE_string \<longrightarrow> getRoleByString v = Inl (Error (''unexpected value: '' @ v))) \<and>
   (v \<notin> range PHASE_string \<longrightarrow> getPhaseByString v = Inl (Error (''unexpected value: '' @ v)))"
proof -
  have 1: "getRoleByString (ROLE_string r) = Inr r"
    by (cases r) (simp_all add: getRoleByString_def)
  have 2: "getPhaseByString (PHASE_string p) = Inr p"
    by (cases p) (simp_all add: getPhaseByString_def)
  have 3: "getRoleByString v = Inl (Error (''unexpected value: '' @ v))" if "v \<notin> range ROLE_string"
  proof -
    have "v \<noteq> ROLE_string x" for x using that by blast
    then show ?thesis unfolding getRoleByString_def by presburger
  qed
  have 4: "getPhaseByString v = Inl (Error (''unexpected value: '' @ v))" if "v \<notin> range PHASE_string"
  proof -
    have "v \<noteq> PHASE_string x" for x using that by blast
    then show ?thesis unfolding getPhaseByString_def by presburger
  qed
  show ?thesis using 1 2 3 4 by blast
qed

text \<open>\<open>wolf\<close> in lower case is neither a role nor a phase.\<close>

theorem decoders_strict_witness:
  "''wolf'' \<notin> range ROLE_string \<and> ''wolf'' \<notin> range PHASE_string \<and>
   getRoleByString ''wolf'' = Inl (Error ''unexpected value: wolf'') \<and>
   getPhaseByString ''wolf'' = Inl (Error ''unexpected value: wolf'') \<and>
   getRoleByString ''Hunter'' = Inr Hunter \<and> getPhaseByString ''Night'' = Inr Night"
proof -
  have "''wolf'' \<noteq> ROLE_string x" for x by (cases x) simp_all
  then have h1: "''wolf'' \<notin> range ROLE_string" by blast
  have "''wolf'' \<noteq> PHASE_string x" for x by (cases x) simp_all
  then have h2: "''wolf'' \<notin> range PHASE_string" by blast
  show ?thesis
    using h1 h2 decoders_strict[of Hunter Night "''wolf''"] by simp
qed

text \<open>
  Claim C2, as the code has it. When the \<^verbatim>\<open>awaitVoting\<close> barrier completes with more than
  one leader and the room is not in final voting, the stored room has
  \<open>isFinalVoting = True\<close> and \<open>phase = VotingResult\<close>, its \<open>lastLynched\<close> and its members
  are as before, every stored user whose id is among the room's \<open>userIds\<close> has vote count
  zero, and no user's isAlive flag changes. The leaders are those of the votes as they
  stand when the signal arrives; the ready flags do not affect them.
\<close>

theorem first_tie_enters_final_voting:
  assumes "wf_store s" and "getRoom s roomId = Some room" and "getUser s userId = Some user"
    and "checkAwaitStatus (setUser (user\<lparr>isAwaiting := True\<rparr>) s) room"
    and "1 < length (getSuspects s room)" and "\<not> isFinalVoting room"
  shows "(\<exists>r. getRoom (fst (awaitVoting roomId userId s)) roomId = Some r \<and>
              isFinalVoting r \<and> phase r = VotingResult \<and>
              lastLynched r = lastLynched room \<and> set (userIds r) = set (userIds room)) \<and>
         (\<forall>w\<in>set (users (fst (awaitVoting roomId userId s))).
            user_id w \<noteq> [] \<and> user_id w \<in> set (userIds room) \<longrightarrow> voteCount w = 0) \<and>
         (\<forall>i. map_option isAlive (getUser (fst (awaitVoting roomId userId s)) i) =
               map_option isAlive (getUser s i))"
proof -
  let ?M = "set (userIds room)"
  let ?g = "zero_votes ?M \<circ> after_barrier ?M userId"
  let ?r = "room\<lparr>isFinalVoting := True, phase := VotingResult\<rparr>"
  have n1: "length (getSuspects s room) \<noteq> 1" using assms(5) by simp
  obtain t where "t \<in> set (getSuspects s room)"
    using assms(5) by (cases "getSuspects s room") auto
  then have ne: "userIds room \<noteq> []" by (rule suspects_members[OF assms(2)])
  have eq: "fst (awaitVoting roomId userId s) = setRoom ?r (map_users ?g s)"
    by (simp add: awaitVoting_tie_first[OF assms(1-4) n1 assms(6) ne])
  have k: "keeps_id ?g" by (intro keeps_id_comp) simp_all
  have rid: "room_id room = roomId" "roomId \<noteq> []"
    using getRoom_id[OF assms(2)] getRoom_nonempty[OF assms(2)] by simp_all
  have 1: "\<exists>r. getRoom (setRoom ?r (map_users ?g s)) roomId = Some r \<and>
              isFinalVoting r \<and> phase r = VotingResult \<and>
              lastLynched r = lastLynched room \<and> set (userIds r) = set (userIds room)"
    using ne by (simp add: getRoom_final rid)
  have 2: "\<forall>w\<in>set (users (setRoom ?r (map_users ?g s))).
            user_id w \<noteq> [] \<and> user_id w \<in> ?M \<longrightarrow> voteCount w = 0"
    by (auto simp: map_users_def voteCount_zero_votes)
  have 3: "map_option isAlive (getUser (setRoom ?r (map_users ?g s)) i) =
           map_option isAlive (getUser s i)" for i
    unfolding getUser_final[OF k] by (simp add: option.map_comp comp_def)
  show ?thesis unfolding eq using 1 2 3 by blast
qed

text \<open>In \<open>ex_tie\<close>, \<open>a\<close> is the last to signal, and \<open>a\<close> and \<open>b\<close> lead with one vote each.\<close>

theorem first_tie_enters_final_voting_witness:
  "wf_store ex_tie \<and>
   getRoom ex_tie ''r'' = Some (ex_room Voting False None) \<and>
   getUser ex_tie ''a'' = Some (ex_user ''a'' WereWolf True 1 False) \<and>
   checkAwaitStatus (setUser ((ex_user ''a'' WereWolf True 1 False)\<lparr>isAwaiting := True\<rparr>) ex_tie)
     (ex_room Voting False None) \<and>
   1 < length (getSuspects ex_tie (ex_room Voting False None)) \<and>
   \<not> isFinalVoting (ex_room Voting False None) \<and>
   map_option isFinalVoting (getRoom (fst (awaitVoting ''r'' ''a'' ex_tie)) ''r'') = Some True \<and>
   map_option phase (getRoom (fst (awaitVoting ''r'' ''a'' ex_tie)) ''r'') = Some VotingResult \<and>
   map_option lastLynched (getRoom (fst (awaitVoting ''r'' ''a'' ex_tie)) ''r'') = Some None \<and>
   list_all (\<lambda>w. user_id w \<noteq> [] \<and> user_id w \<in> set (userIds (ex_room Voting False None))
                   \<longrightarrow> voteCount w = 0)
     (users (fst (awaitVoting ''r'' ''a'' ex_tie))) \<and>
   map_option isAlive (getUser (fst (awaitVoting ''r'' ''a'' ex_tie)) ''b'') = Some True"
proof -
  have h1: "wf_store ex_tie" by code_simp
  have h2: "getRoom ex_tie ''r'' = Some (ex_room Voting False None)" by code_simp
  have h3: "getUser ex_tie ''a'' = Some (ex_user ''a'' WereWolf True 1 False)" by code_simp
  have h4: "checkAwaitStatus
     (setUser ((ex_user ''a'' WereWolf True 1 False)\<lparr>isAwaiting := True\<rparr>) ex_tie)
     (ex_room Voting False None)" by code_simp
  have h5: "1 < length (getSuspects ex_tie (ex_room Voting False None))" by code_simp
  have h6: "\<not> isFinalVoting (ex_room Voting False None)" by code_simp
  have h7: "lastLynched (ex_room Voting False None) = None" by code_simp
  have h8: "map_option isAlive (getUser ex_tie ''b'') = Some True" by code_simp
  show ?thesis
    using h1 h2 h3 h4 h5 h6 h7 h8 first_tie_enters_final_voting[OF h1 h2 h3 h4 h5 h6]
    unfolding list_all_iff by auto
qed

text \<open>
  The claim as the specification words it has the phase return to Voting. In \<open>ex_tie\<close>
  the barrier completes on a first tie and the stored phase is VotingResult.
\<close>

theorem first_tie_phase_counterexample:
  "wf_store ex_tie \<and>
   getRoom ex_tie ''r'' = Some (ex_room Voting False None) \<and>
   getUser ex_tie ''a'' = Some (ex_user ''a'' WereWolf True 1 False) \<and>
   checkAwaitStatus (setUser ((ex_user ''a'' WereWolf True 1 False)\<lparr>isAwaiting := True\<rparr>) ex_tie)
     (ex_room Voting False None) \<and>
   getSuspects ex_tie (ex_room Voting False None) = [''a'', ''b''] \<and>
   \<not> isFinalVoting (ex_room Voting False None) \<and>
   map_option phase (getRoom (fst (awaitVoting ''r'' ''a'' ex_tie)) ''r'') = Some VotingResult \<and>
   map_option phase (getRoom (fst (awaitVoting ''r'' ''a'' ex_tie)) ''r'') \<noteq> Some Voting"
  by code_simp

text \<open>
  Claim C3. When the \<^verbatim>\<open>awaitVoting\<close> barrier completes with exactly one leader \<open>t\<close>, that
  user has a record, is not alive afterwards, the stored room has \<open>lastLynched = t\<close> and
  \<open>phase = VotingResult\<close>, the members are the same and each has vote count zero.
\<close>

theorem unique_leader_lynched:
  assumes "wf_store s" and "getRoom s roomId = Some room" and "getUser s userId = Some user"
    and "checkAwaitStatus (setUser (user\<lparr>isAwaiting := True\<rparr>) s) room"
    and "getSuspects s room = [t]"
  shows "(\<exists>u. getUser s t = Some u) \<and>
         (\<exists>u. getUser (fst (awaitVoting roomId userId s)) t = Some u \<and> \<not> isAlive u) \<and>
         (\<exists>r. getRoom (fst (awaitVoting roomId userId s)) roomId = Some r \<and>
              lastLynched r = Some t \<and> phase r = VotingResult) \<and>
         map user_id (getUsersInRoom (fst (awaitVoting roomId userId s)) roomId) =
           map user_id (getUsersInRoom s roomId) \<and>
         (\<forall>u\<in>set (getUsersInRoom (fst (awaitVoting roomId userId s)) roomId). voteCount u = 0)"
proof -
  let ?M = "set (userIds room)"
  let ?g = "zero_votes ?M \<circ> kill t \<circ> after_barrier ?M userId"
  let ?r = "room\<lparr>lastLynched := Some t, isFinalVoting := False, phase := VotingResult\<rparr>"
  have eq: "fst (awaitVoting roomId userId s) = setRoom ?r (map_users ?g s)"
    by (simp add: awaitVoting_unique[OF assms])
  have k: "keeps_id ?g" by (intro keeps_id_comp) simp_all
  have rid: "room_id room = roomId" "roomId \<noteq> []"
    using getRoom_id[OF assms(2)] getRoom_nonempty[OF assms(2)] by simp_all
  obtain u where u: "getUser s t = Some u"
    using suspect_present[of t s room] assms(5) by auto
  have tu: "user_id u = t" using u by (rule getUser_id)
  have us: "getUsersInRoom (setRoom ?r (map_users ?g s)) roomId = map ?g (getUsersInRoom s roomId)"
    using k assms(2) by (rule getUsersInRoom_final) (simp_all add: rid)
  have "getUser (setRoom ?r (map_users ?g s)) t = Some (?g u)"
    unfolding getUser_final[OF k] using u by simp
  moreover have "\<not> isAlive (?g u)" using tu by (simp add: kill_def)
  ultimately have 2: "\<exists>w. getUser (setRoom ?r (map_users ?g s)) t = Some w \<and> \<not> isAlive w"
    by blast
  have ne: "userIds room \<noteq> []"
    using suspects_members[OF assms(2), of t] assms(5) by simp
  have 3: "\<exists>r. getRoom (setRoom ?r (map_users ?g s)) roomId = Some r \<and>
              lastLynched r = Some t \<and> phase r = VotingResult"
    using ne by (simp add: getRoom_final rid)
  have 4: "map user_id (map ?g (getUsersInRoom s roomId)) = map user_id (getUsersInRoom s roomId)"
    by simp
  have 5: "\<forall>w\<in>set (map ?g (getUsersInRoom s roomId)). voteCount w = 0"
    using in_room_member[of _ s roomId] in_room_nonempty[of _ s roomId] assms(2)
    by (auto simp: member_ids_Some voteCount_zero_votes)
  show ?thesis unfolding eq us using u 2 3 4 5 by blast
qed

text \<open>In \<open>ex_unique False\<close>, \<open>b\<close> leads alone with two votes and is lynched.\<close>

theorem unique_leader_lynched_witness:
  "wf_store (ex_unique False) \<and>
   getRoom (ex_unique False) ''r'' = Some (ex_room Voting False None) \<and>
   getUser (ex_unique False) ''a'' = Some (ex_user ''a'' WereWolf True 0 False) \<and>
   checkAwaitStatus
     (setUser ((ex_user ''a'' WereWolf True 0 False)\<lparr>isAwaiting := True\<rparr>) (ex_unique False))
     (ex_room Voting False None) \<and>
   getSuspects (ex_unique False) (ex_room Voting False None) = [''b''] \<and>
   map_option isAlive (getUser (fst (awaitVoting ''r'' ''a'' (ex_unique False))) ''b'') = Some False \<and>
   map_option lastLynched (getRoom (fst (awaitVoting ''r'' ''a'' (ex_unique False))) ''r'')
     = Some (Some ''b'') \<and>
   map_option phase (getRoom (fst (awaitVoting ''r'' ''a'' (ex_unique False))) ''r'')
     = Some VotingResult \<and>
   list_all (\<lambda>u. voteCount u = 0)
     (getUsersInRoom (fst (awaitVoting ''r'' ''a'' (ex_unique False))) ''r'')"
proof -
  have h1: "wf_store (ex_unique False)" by code_simp
  have h2: "getRoom (ex_unique False) ''r'' = Some (ex_room Voting False None)" by code_simp
  have h3: "getUser (ex_unique False) ''a'' = Some (ex_user ''a'' WereWolf True 0 False)"
    by code_simp
  have h4: "checkAwaitStatus
     (setUser ((ex_user ''a'' WereWolf True 0 False)\<lparr>isAwaiting := True\<rparr>) (ex_unique False))
     (ex_room Voting False None)" by code_simp
  have h5: "getSuspects (ex_unique False) (ex_room Voting False None) = [''b'']" by code_simp
  show ?thesis
    using h1 h2 h3 h4 h5 unique_leader_lynched[OF h1 h2 h3 h4 h5]
    unfolding list_all_iff by auto
qed

text \<open>
  Claim C10. When the \<^verbatim>\<open>awaitVoting\<close> barrier completes with exactly one leader, the
  stored room's \<open>isFinalVoting\<close> is false afterwards, whatever it was before.
\<close>

theorem unique_leader_clears_final_voting:
  assumes "wf_store s" and "getRoom s roomId = Some room" and "getUser s userId = Some user"
    and "checkAwaitStatus (setUser (user\<lparr>isAwaiting := True\<rparr>) s) room"
    and "getSuspects s room = [t]"
  shows "\<exists>r. getRoom (fst (awaitVoting roomId userId s)) roomId = Some r \<and> \<not> isFinalVoting r"
proof -
  have "room_id room = roomId" "roomId \<noteq> []"
    using getRoom_id[OF assms(2)] getRoom_nonempty[OF assms(2)] by simp_all
  moreover have "userIds room \<noteq> []"
    using suspects_members[OF assms(2), of t] assms(5) by simp
  ultimately show ?thesis
    by (simp add: awaitVoting_unique[OF assms] getRoom_final)
qed

text \<open>In \<open>ex_unique True\<close> the room is in final voting when \<open>b\<close> is lynched.\<close>

theorem unique_leader_clears_final_voting_witness:
  "wf_store (ex_unique True) \<and>
   getRoom (ex_unique True) ''r'' = Some (ex_room Voting True None) \<and>
   isFinalVoting (ex_room Voting True None) \<and>
   getUser (ex_unique True) ''a'' = Some (ex_user ''a'' WereWolf True 0 False) \<and>
   checkAwaitStatus
     (setUser ((ex_user ''a'' WereWolf True 0 False)\<lparr>isAwaiting := True\<rparr>) (ex_unique True))
     (ex_room Voting True None) \<and>
   getSuspects (ex_unique True) (ex_room Voting True None) = [''b''] \<and>
   map_option isFinalVoting (getRoom (fst (awaitVoting ''r'' ''a'' (ex_unique True))) ''r'')
     = Some False"
proof -
  have h1: "wf_store (ex_unique True)" by code_simp
  have h2: "getRoom (ex_unique True) ''r'' = Some (ex_room Voting True None)" by code_simp
  have h3: "getUser (ex_unique True) ''a'' = Some (ex_user ''a'' WereWolf True 0 False)"
    by code_simp
  have h4: "checkAwaitStatus
     (setUser ((ex_user ''a'' WereWolf True 0 False)\<lparr>isAwaiting := True\<rparr>) (ex_unique True))
     (ex_room Voting True None)" by code_simp
  have h5: "getSuspects (ex_unique True) (ex_room Voting True None) = [''b'']" by code_simp
  have h6: "isFinalVoting (ex_room Voting True None)" by code_simp
  show ?thesis
    using h1 h2 h3 h4 h5 h6 unique_leader_clears_final_voting[OF h1 h2 h3 h4 h5]
    by auto
qed

text \<open>
  Claim C4. When the \<^verbatim>\<open>awaitNight\<close> barrier completes with exactly one leader \<open>t\<close> and
  \<open>t\<close> is the room's \<open>lastHunted\<close>, no user's isAlive flag changes (so \<open>t\<close> stays alive)
  and the stored room's \<open>lastMurdered\<close> is what it was, whether the game ends or goes on
  and whatever the vote counts are.
\<close>

theorem protected_attack_fails:
  assumes "wf_store s" and "getRoom s roomId = Some room" and "getUser s userId = Some user"
    and "checkAwaitStatus (setUser (user\<lparr>isAwaiting := True\<rparr>) s) room"
    and "getSuspects s room = [t]" and "lastHunted room = Some t"
  shows "(\<forall>i. map_option isAlive (getUser (fst (awaitNight roomId userId s)) i) =
               map_option isAlive (getUser s i)) \<and>
         (\<exists>r. getRoom (fst (awaitNight roomId userId s)) roomId = Some r \<and>
              lastMurdered r = lastMurdered room)"
proof -
  let ?M = "set (userIds room)"
  let ?g = "zero_votes ?M \<circ> after_barrier ?M userId"
  let ?r = "room\<lparr>lastHunted := None, days := days room + 1, phase := Discussion\<rparr>"
  note eq = awaitNight_protected[OF assms]
  have rid: "room_id room = roomId" "roomId \<noteq> []"
    using getRoom_id[OF assms(2)] getRoom_nonempty[OF assms(2)] by simp_all
  have k: "keeps_id ?g" by (intro keeps_id_comp) simp_all
  have ne: "userIds room \<noteq> []"
    using suspects_members[OF assms(2), of t] assms(5) by simp
  show ?thesis
  proof (cases "judge s roomId = HUMAN_WIN \<or> judge s roomId = WOLVES_WIN")
    case True
    then have e: "fst (awaitNight roomId userId s) = map_users (after_barrier ?M userId) s"
      unfolding eq by simp
    have "map_option isAlive (getUser (map_users (after_barrier ?M userId) s) i) =
          map_option isAlive (getUser s i)" for i
      by (simp add: getUser_map_users option.map_comp comp_def)
    then show ?thesis unfolding e using assms(2) by simp
  next
    case False
    then have e: "fst (awaitNight roomId userId s) = setRoom ?r (map_users ?g s)"
      unfolding eq by simp
    have "map_option isAlive (getUser (setRoom ?r (map_users ?g s)) i) =
          map_option isAlive (getUser s i)" for i
      unfolding getUser_final[OF k] by (simp add: option.map_comp comp_def)
    then show ?thesis unfolding e using ne by (simp add: getRoom_final rid)
  qed
qed

text \<open>In \<open>ex_night\<close> all three attack votes are on \<open>b\<close>, who is protected.\<close>

theorem protected_attack_fails_witness:
  "wf_store ex_night \<and>
   getRoom ex_night ''r'' = Some (ex_room Night False (Some ''b'')) \<and>
   getUser ex_night ''a'' = Some (ex_user ''a'' WereWolf True 0 False) \<and>
   checkAwaitStatus (setUser ((ex_user ''a'' WereWolf True 0 False)\<lparr>isAwaiting := True\<rparr>) ex_night)
     (ex_room Night False (Some ''b'')) \<and>
   getSuspects ex_night (ex_room Night False (Some ''b'')) = [''b''] \<and>
   lastHunted (ex_room Night False (Some ''b'')) = Some ''b'' \<and>
   map_option isAlive (getUser ex_night ''b'') = Some True \<and>
   map_option isAlive (getUser (fst (awaitNight ''r'' ''a'' ex_night)) ''b'') = Some True \<and>
   map_option lastMurdered (getRoom (fst (awaitNight ''r'' ''a'' ex_night)) ''r'') = Some None"
proof -
  have h1: "wf_store ex_night" by code_simp
  have h2: "getRoom ex_night ''r'' = Some (ex_room Night False (Some ''b''))" by code_simp
  have h3: "getUser ex_night ''a'' = Some (ex_user ''a'' WereWolf True 0 False)" by code_simp
  have h4: "checkAwaitStatus
     (setUser ((ex_user ''a'' WereWolf True 0 False)\<lparr>isAwaiting := True\<rparr>) ex_night)
     (ex_room Night False (Some ''b''))" by code_simp
  have h5: "getSuspects ex_night (ex_room Night False (Some ''b'')) = [''b'']" by code_simp
  have h6: "lastHunted (ex_room Night False (Some ''b'')) = Some ''b''" by code_simp
  have h7: "map_option isAlive (getUser ex_night ''b'') = Some True" by code_simp
  have h8: "lastMurdered (ex_room Night False (Some ''b'')) = None" by code_simp
  show ?thesis
    using h1 h2 h3 h4 h5 h6 h7 h8 protected_attack_fails[OF h1 h2 h3 h4 h5 h6]
    by auto
qed




text \<open>
  Claim C8, as the code has it. When the room id or the user id that an event carries and
  its handler looks up is not in the store, the handler leaves the store as it is and
  its only output is logged.
\<close>

theorem not_found_dropped:
  assumes "not_found e s"
  shows "fst (handle e s) = s \<and> snd (handle e s) \<noteq> [] \<and> list_all is_Log (snd (handle e s))"
  using assms
  by (cases e)
     (auto simp: not_found_def is_Log_def join_def getRoom_handler_def getUser_handler_def
        leave_def choice_def vote_def murder_def hunt_def awaitStart_def awaitDiscussion_def
        awaitVoting_def awaitVotingResult_def awaitNight_def find_getUsers Let_def
        split: option.splits)

text \<open>A vote for a user without a record, in a room that exists.\<close>

theorem not_found_dropped_witness:
  "not_found (Vote ''r'' ''z'') ex_tie \<and>
   getRoom ex_tie ''r'' = Some (ex_room Voting False None) \<and>
   fst (handle (Vote ''r'' ''z'') ex_tie) = ex_tie \<and>
   snd (handle (Vote ''r'' ''z'') ex_tie) = [Log ''vote: User not found'']"
proof -
  have h: "not_found (Vote ''r'' ''z'') ex_tie" by code_simp
  have r: "getRoom ex_tie ''r'' = Some (ex_room Voting False None)" by code_simp
  have o: "snd (handle (Vote ''r'' ''z'') ex_tie) = [Log ''vote: User not found'']" by code_simp
  show ?thesis using h r o not_found_dropped[OF h] by simp
qed

text \<open>
  The claim as the specification words it also covers ids a handler meets later. In
  \<open>ex_ghost\<close> member \<open>c\<close> has no record: role assignment logs that, and still counts the
  day and broadcasts; and the lynch step of the Voting barrier, given a leader without a
  record, logs that, and still stores the phase and broadcasts.
\<close>

theorem not_found_later_counterexample:
  "getRoom ex_ghost ''r'' = Some (ex_room Start False None) \<and>
   ''c'' \<in> set (userIds (ex_room Start False None)) \<and>
   getUser ex_ghost ''c'' = None \<and>
   snd (handle (Choice ex_rnd ''r'') ex_ghost) = [Log ''choice: User not found'', Broadcast ''choice''] \<and>
   map_option days (getRoom ex_ghost ''r'') = Some 1 \<and>
   map_option days (getRoom (fst (handle (Choice ex_rnd ''r'') ex_ghost)) ''r'') = Some 2 \<and>
   map_option role (getUser ex_ghost ''a'') = Some (Some WereWolf) \<and>
   map_option role (getUser (fst (handle (Choice ex_rnd ''r'') ex_ghost)) ''a'') = Some (Some Villager) \<and>
   snd (awaitVoting_resolve ex_ghost (ex_room Start False None) [''c'']) =
     [Log ''awaitVoting: User not found'', Broadcast ''awaitVoting''] \<and>
   map_option phase (getRoom ex_ghost ''r'') = Some Start \<and>
   map_option phase (getRoom (fst (awaitVoting_resolve ex_ghost (ex_room Start False None) [''c''])) ''r'')
     = Some VotingResult"
  by code_simp

end
